theory Spec2Isabelle
  imports Main
begin

section \<open>Shared JavaScript helpers\<close>

text \<open>
  An \<open>Error\<close> is represented by its message; job results and payloads are opaque.
\<close>

type_synonym error = string
type_synonym data = string

text \<open>
  \<open>Array.prototype.indexOf\<close>: the first position of the element, \<open>-1\<close> when absent.
\<close>

fun indexOf :: "'a list \<Rightarrow> 'a \<Rightarrow> int" where
  "indexOf [] x = -1"
| "indexOf (y # ys) x =
     (if y = x then 0 else (let k = indexOf ys x in if k < 0 then -1 else k + 1))"

text \<open>
  \<open>xs.splice(start, 1)\<close>: removes one element at \<open>start\<close>. A negative \<open>start\<close> counts
  from the end (clamped at 0); a \<open>start\<close> past the end removes nothing.
\<close>

definition splice1 :: "int \<Rightarrow> 'a list \<Rightarrow> 'a list" where
  "splice1 start xs =
     (let n = int (length xs);
          k = (if start < 0 then max (n + start) 0 else min start n)
      in take (nat k) xs @ drop (Suc (nat k)) xs)"

section \<open>Job.ts\<close>

datatype JobStatus = QUEUED | ACTIVE | PAUSED | COMPLETED

text \<open>
  \<open>JobOptions\<close>: only \<open>priority\<close> influences scheduling; the session, socket and
  callback reference go to the \<open>JobContext\<close>, which is not part of the sources.
\<close>

record JobOptions =
  opt_priority :: "int option"
  opt_longJob :: "string option"

text \<open>
  The fields of a \<open>Job\<close> object. \<open>module\<close> is the name of the module object the job
  refers to; the time stamps are readings of \<open>performance.now()\<close>. The payload is read
  by the phases only, whose outcomes are inputs below, so it is not a field here.
\<close>

record Job =
  module :: string
  priority :: int
  longJob :: "string option"
  uuid :: string
  status :: JobStatus
  createdAt :: nat
  startedAt :: "nat option"
  completedAt :: "nat option"

text \<open>
  The constructor. The identifier comes from \<open>generateUuid()\<close> and the creation time
  from \<open>performance.now()\<close>; both are inputs here. \<open>if (priority)\<close> and \<open>if (longJob)\<close>
  are JavaScript truthiness tests: \<open>undefined\<close>, the number \<open>0\<close> and the empty string
  are falsy.
\<close>

definition Job_new :: "string \<Rightarrow> JobOptions option \<Rightarrow> string \<Rightarrow> nat \<Rightarrow> Job" where
  "Job_new m options u now =
     (let j = \<lparr> module = m, priority = 1, longJob = None, uuid = u, status = QUEUED,
                createdAt = now, startedAt = None, completedAt = None \<rparr>
      in case options of
           None \<Rightarrow> j
         | Some opts \<Rightarrow>
             (let j1 = (case opt_priority opts of
                          None \<Rightarrow> j
                        | Some p \<Rightarrow> if p \<noteq> 0 then j\<lparr>priority := p\<rparr> else j)
              in case opt_longJob opts of
                   None \<Rightarrow> j1
                 | Some t \<Rightarrow> if t \<noteq> [] then j1\<lparr>longJob := Some t\<rparr> else j1))"

text \<open>\<open>if (this._startedAt)\<close>: set and not the number zero.\<close>

definition hasStarted :: "Job \<Rightarrow> bool" where
  "hasStarted j = (case startedAt j of None \<Rightarrow> False | Some t \<Rightarrow> t \<noteq> 0)"

text \<open>
  The calls of \<open>execute\<close> that report on the job, by the place of the call: the awaited
  \<open>EventsModule.publish\<close>, \<open>this.log\<close> (which serialises the job with \<open>toJSON\<close>, that
  is \<open>JSON.stringify\<close> of the payload) and \<open>JobStatistics.updateStats\<close>, in the \<open>try\<close>
  block, in the \<open>catch\<close> block and in the \<open>finally\<close> block.
\<close>

datatype report =
    PublishSuccess | LogSuccess | StatSuccessful
  | PublishError | LogError | StatFailed
  | StatTotal | StatDuration

text \<open>
  What a job does when it is executed is an input. The three overridable phases
  \<open>_validate\<close>, \<open>_authorize\<close> and \<open>_execute\<close> are up to the job class and each either
  raises an error or returns; \<open>p_callbackRef\<close> says whether
  \<open>this._context.getCallbackRef()\<close> is truthy (\<open>JobContext\<close> is not part of the sources);
  the event bus, the log book and the statistics are not part of the sources either, and
  \<open>p_report\<close> says for each reporting call whether it raises an error or returns.
\<close>

record phases =
  p_validate :: "error option"
  p_authorize :: "error option"
  p_execute :: "error + data"
  p_callbackRef :: bool
  p_report :: "report \<Rightarrow> error option"

datatype phase = Validate | Authorize | Execute

text \<open>
  The three phases at the head of the \<open>try\<close> block of \<open>execute\<close>, in order, a raised
  error skipping the remaining ones. The result lists the phases that ran.
\<close>

definition run_phases :: "phases \<Rightarrow> phase list \<times> (error + data)" where
  "run_phases ph =
     (case p_validate ph of
        Some e \<Rightarrow> ([Validate], Inl e)
      | None \<Rightarrow>
          (case p_authorize ph of
             Some e \<Rightarrow> ([Validate, Authorize], Inl e)
           | None \<Rightarrow> ([Validate, Authorize, Execute], p_execute ph)))"

text \<open>Calls made one after the other: the first error raised, if any.\<close>

fun first_error :: "error option list \<Rightarrow> error option" where
  "first_error [] = None"
| "first_error (None # rs) = first_error rs"
| "first_error (Some e # rs) = Some e"

text \<open>
  The \<open>try\<close> block: the phases, then the result is published when there is a callback
  reference, logged and counted. An error of any of these calls leaves the block.
\<close>

definition try_block :: "phases \<Rightarrow> error + data" where
  "try_block ph =
     (case snd (run_phases ph) of
        Inl e \<Rightarrow> Inl e
      | Inr d \<Rightarrow>
          (case first_error (map (p_report ph)
                  ((if p_callbackRef ph then [PublishSuccess] else []) @
                   [LogSuccess, StatSuccessful])) of
             Some e \<Rightarrow> Inl e
           | None \<Rightarrow> Inr d))"

text \<open>
  The \<open>catch\<close> block for the error \<open>error\<close>: the error is published when there is a
  callback reference, logged and counted, and then thrown again. The result is the error
  the block ends with: the one of a reporting call that raises, \<open>error\<close> otherwise.
\<close>

definition catch_block :: "phases \<Rightarrow> error \<Rightarrow> error" where
  "catch_block ph error =
     (case first_error (map (p_report ph)
             ((if p_callbackRef ph then [PublishError] else []) @ [LogError, StatFailed])) of
        Some e \<Rightarrow> e
      | None \<Rightarrow> error)"

text \<open>
  The \<open>finally\<close> block: the completion time is set, the statistics are updated and the
  status becomes COMPLETED. An error of the statistics leaves the block before the status
  is set and is what \<open>execute\<close> ends with.
\<close>

definition finally_block :: "phases \<Rightarrow> nat \<Rightarrow> Job \<Rightarrow> Job \<times> error option" where
  "finally_block ph now j =
     (let j1 = j\<lparr>completedAt := Some now\<rparr>
      in case first_error (map (p_report ph)
                ([StatTotal] @ (if hasStarted j1 then [StatDuration] else []))) of
           Some e \<Rightarrow> (j1, Some e)
         | None \<Rightarrow> (j1\<lparr>status := COMPLETED\<rparr>, None))"

text \<open>
  \<open>execute\<close> up to its first \<open>await\<close>: the two guards, then the job becomes ACTIVE.
  A \<open>throw\<close> in this \<open>async\<close> function is the result \<open>Inl\<close>.
\<close>

definition execute_begin :: "bool \<Rightarrow> nat \<Rightarrow> Job \<Rightarrow> error + Job" where
  "execute_begin canRunJobs now j =
     (if hasStarted j then Inl ''Job has already been executed.''
      else if \<not> canRunJobs then Inl ''Module can not currently run jobs.''
      else Inr (j\<lparr>status := ACTIVE, startedAt := Some now\<rparr>))"

text \<open>
  The rest of \<open>execute\<close>, the \<open>try\<close> statement with its \<open>catch\<close> and \<open>finally\<close>
  blocks: the job afterwards, the phases that ran and what the caller receives.
\<close>

definition execute_rest :: "phases \<Rightarrow> nat \<Rightarrow> Job \<Rightarrow> Job \<times> phase list \<times> (error + data)" where
  "execute_rest ph now j =
     (let tried = (case try_block ph of
                     Inl e \<Rightarrow> Inl (catch_block ph e)
                   | Inr d \<Rightarrow> Inr d)
      in (fst (finally_block ph now j), fst (run_phases ph),
          (case snd (finally_block ph now j) of
             Some e \<Rightarrow> Inl e
           | None \<Rightarrow> tried)))"


text \<open>
  The life of one job object: \<open>execute\<close> may be called at any time (\<open>Call\<close>, with what
  \<open>canRunJobs\<close> answers and the clock reading), and an execution that is under way
  finishes at some later time (\<open>Finish\<close>). \<open>underway\<close> counts the executions past their
  guards and not yet finished, \<open>ran\<close> records the phases of each finished execution and
  \<open>refused\<close> the errors of the calls stopped by a guard.
\<close>

datatype job_event = Call bool nat | Finish phases nat

record job_life =
  the_job :: Job
  underway :: nat
  ran :: "phase list list"
  refused :: "error list"

fun job_step :: "job_life \<Rightarrow> job_event \<Rightarrow> job_life" where
  "job_step r (Call c t) =
     (case execute_begin c t (the_job r) of
        Inl e \<Rightarrow> r\<lparr>refused := refused r @ [e]\<rparr>
      | Inr j \<Rightarrow> r\<lparr>the_job := j, underway := Suc (underway r)\<rparr>)"
| "job_step r (Finish ph t) =
     (if underway r = 0 then r
      else r\<lparr>the_job := fst (execute_rest ph t (the_job r)), underway := underway r - 1,
              ran := ran r @ [fst (snd (execute_rest ph t (the_job r)))]\<rparr>)"

definition job_life_new :: "Job \<Rightarrow> job_life" where
  "job_life_new j = \<lparr> the_job = j, underway = 0, ran = [], refused = [] \<rparr>"

fun clock_positive :: "job_event \<Rightarrow> bool" where
  "clock_positive (Call c t) = (0 < t)"
| "clock_positive (Finish ph t) = True"

fun rank :: "JobStatus \<Rightarrow> nat" where
  "rank QUEUED = 0"
| "rank ACTIVE = 1"
| "rank PAUSED = 1"
| "rank COMPLETED = 2"

section \<open>ModuleManager.ts\<close>

text \<open>
  Modelled from the spec: the enumeration \<open>ModuleStatus\<close> is declared in \<open>BaseModule\<close>,
  which is not part of the sources. The spec lists the statuses; \<open>_startModule\<close> names
  all of them but the initial one, which reaches the \<open>default\<close> branch of its switch.
\<close>

datatype ModuleStatus =
  UNINITIALIZED | STARTING | STARTED | ERROR | STOPPING | STOPPED | DISABLED

text \<open>
  What the orchestrator reads of a module object: \<open>getStatus()\<close> and
  \<open>getDependentModules()\<close>, the names of the modules it depends on.
\<close>

record Module =
  moduleStatus :: ModuleStatus
  dependentModules :: "string list"

text \<open>
  The state of a \<open>ModuleManager\<close> after \<open>_loadModules\<close>: \<open>modules\<close> is the object
  \<open>_modules\<close> as its entries, in key order. \<open>startups\<close> and \<open>shutdowns\<close> record
  the modules whose \<open>startup()\<close> and \<open>shutdown()\<close> routines were invoked, in order, and
  \<open>resumed\<close> that the job queue was told to resume.
\<close>

record ModuleManager =
  modules :: "(string \<times> Module) list"
  startups :: "string list"
  shutdowns :: "string list"
  resumed :: bool

definition getModule :: "ModuleManager \<Rightarrow> string \<Rightarrow> Module option" where
  "getModule s name = map_of (modules s) name"

definition setStatus :: "string \<Rightarrow> ModuleStatus \<Rightarrow> ModuleManager \<Rightarrow> ModuleManager" where
  "setStatus name st s =
     s\<lparr>modules := map (\<lambda>(n, m). if n = name then (n, m\<lparr>moduleStatus := st\<rparr>) else (n, m))
                      (modules s)\<rparr>"

text \<open>
  Modelled from the spec: \<open>BaseModule.startup\<close> and the modules' own startup routines
  are not part of the sources. The spec: "invoke S's own startup routine; on success mark
  STARTED, on failure mark ERROR". Whether the routine of a module fails is the input
  \<open>boot\<close>; the ERROR mark is the \<open>catch\<close> handler of \<open>_startModule\<close>.
\<close>

definition module_startup ::
  "(string \<Rightarrow> error option) \<Rightarrow> string \<Rightarrow> ModuleManager \<Rightarrow> error option \<times> ModuleManager" where
  "module_startup boot name s =
     (let s1 = s\<lparr>startups := startups s @ [name]\<rparr>
      in case boot name of
           None \<Rightarrow> (None, setStatus name STARTED s1)
         | Some e \<Rightarrow> (Some e, s1))"

text \<open>
  How a call ends: it throws, it returns, or it has not returned when the recursion
  budget is used up.

  \<open>_startModule\<close> calls itself for every dependency and nothing in it bounds the
  recursion. Two resources do. The call stack: a call made before the first \<open>await\<close> of
  its caller runs on top of the caller's frames, so the calls for first dependencies nest
  on the stack, and a call for which no room is left is a RangeError ("Maximum call stack
  size exceeded") in its caller; after an \<open>await\<close> a function goes on in a frame of its
  own at the bottom of the stack, so the calls for the later dependencies, and those of
  the loop of \<open>startup\<close>, have the whole stack \<open>depth\<close> again. The promises: the calls
  for later dependencies nest as pending promises only, without end if nothing stops
  them; the budget \<open>n\<close> counts the nested calls down, and a call that is reached with
  the budget used up has not returned.
\<close>

datatype completion = Threw error | Returned | Unfinished

text \<open>
  \<open>_startModule\<close>, the module object given by its name, with \<open>room\<close> frames left on
  the stack, and its loop over the dependencies, \<open>room\<close> being what is left for the
  first call of the loop. A module object always has a registered name, so the first
  case of the lookup is only there to make it total.
\<close>

fun startModule ::
    "nat \<Rightarrow> nat \<Rightarrow> nat \<Rightarrow> (string \<Rightarrow> error option) \<Rightarrow> string \<Rightarrow> ModuleManager
       \<Rightarrow> completion \<times> ModuleManager"
  and startDependencies ::
    "nat \<Rightarrow> nat \<Rightarrow> nat \<Rightarrow> (string \<Rightarrow> error option) \<Rightarrow> string list \<Rightarrow> ModuleManager
       \<Rightarrow> completion \<times> ModuleManager"
  where
  "startModule depth n 0 boot name s = (Threw ''Maximum call stack size exceeded'', s)"
| "startModule depth 0 (Suc room) boot name s = (Unfinished, s)"
| "startModule depth (Suc n) (Suc room) boot name s =
     (case getModule s name of
        None \<Rightarrow> (Threw ''Dependent module not found'', s)
      | Some m \<Rightarrow>
          (case moduleStatus m of
             STARTING \<Rightarrow> (Returned, s)
           | STARTED \<Rightarrow> (Returned, s)
           | ERROR \<Rightarrow> (Threw ''Dependent module failed to start'', s)
           | STOPPING \<Rightarrow> (Threw ''Dependent module is unavailable'', s)
           | STOPPED \<Rightarrow> (Threw ''Dependent module is unavailable'', s)
           | DISABLED \<Rightarrow> (Threw ''Dependent module is unavailable'', s)
           | UNINITIALIZED \<Rightarrow>
               (case startDependencies depth n room boot (dependentModules m) s of
                  (Returned, s1) \<Rightarrow>
                    (case module_startup boot name s1 of
                       (None, s2) \<Rightarrow> (Returned, s2)
                     | (Some e, s2) \<Rightarrow> (Threw e, setStatus name ERROR s2))
                | (r, s1) \<Rightarrow> (r, s1))))"
| "startDependencies depth n room boot [] s = (Returned, s)"
| "startDependencies depth n room boot (d # ds) s =
     (case getModule s d of
        None \<Rightarrow> (Threw ''Dependent module not found'', s)
      | Some dependency \<Rightarrow>
          (case startModule depth n room boot d s of
             (Returned, s1) \<Rightarrow> startDependencies depth n depth boot ds s1
           | (r, s1) \<Rightarrow> (r, s1)))"

text \<open>
  One round of the loop of \<open>shutdown\<close> for the entry \<open>(name, module)\<close>: the name is
  appended unless present, every dependency that is present is spliced out at its
  \<open>indexOf\<close>, and all the dependencies are appended.
\<close>

definition shutdownStep :: "string list \<Rightarrow> string \<times> Module \<Rightarrow> string list" where
  "shutdownStep shutdownOrder entry =
     (let name = fst entry;
          dependencies = dependentModules (snd entry);
          order1 = (if name \<in> set shutdownOrder then shutdownOrder else shutdownOrder @ [name]);
          present = filter (\<lambda>dependency. dependency \<in> set order1) dependencies;
          order2 = foldl (\<lambda>order dependency. splice1 (indexOf order dependency) order)
                     order1 present
      in order2 @ dependencies)"

definition isRunning :: "Module \<Rightarrow> bool" where
  "isRunning m = (moduleStatus m \<in> {STARTED, STARTING, ERROR})"

definition shutdownOrder :: "(string \<times> Module) list \<Rightarrow> string list" where
  "shutdownOrder ms = foldl shutdownStep [] (filter (\<lambda>entry. isRunning (snd entry)) ms)"

text \<open>
  \<open>shutdown\<close>: the shutdown routine of every name of the order that \<open>getModule\<close>
  finds is invoked, in that order. The routines themselves are not part of the sources;
  they are taken to return.
\<close>

definition shutdown :: "ModuleManager \<Rightarrow> ModuleManager" where
  "shutdown s =
     s\<lparr>shutdowns := shutdowns s @
         filter (\<lambda>moduleName. getModule s moduleName \<noteq> None) (shutdownOrder (modules s))\<rparr>"

text \<open>
  \<open>startup\<close>: after the \<open>await\<close> of \<open>_loadModules\<close>, every loaded module is started
  in key order, each call with the whole stack, then the job queue is resumed; the
  \<open>catch\<close> block runs \<open>shutdown\<close> and throws the error again. A call that has not
  returned leaves \<open>startup\<close> waiting in its \<open>try\<close> block.
\<close>

fun startModules ::
    "nat \<Rightarrow> nat \<Rightarrow> (string \<Rightarrow> error option) \<Rightarrow> string list \<Rightarrow> ModuleManager
       \<Rightarrow> completion \<times> ModuleManager" where
  "startModules depth n boot [] s = (Returned, s)"
| "startModules depth n boot (name # names) s =
     (case startModule depth n depth boot name s of
        (Returned, s1) \<Rightarrow> startModules depth n boot names s1
      | (r, s1) \<Rightarrow> (r, s1))"

definition startup ::
    "nat \<Rightarrow> nat \<Rightarrow> (string \<Rightarrow> error option) \<Rightarrow> ModuleManager \<Rightarrow> completion \<times> ModuleManager" where
  "startup depth n boot s =
     (case startModules depth n boot (map fst (modules s)) s of
        (Returned, s1) \<Rightarrow> (Returned, s1\<lparr>resumed := True\<rparr>)
      | (Threw e, s1) \<Rightarrow> (Threw e, shutdown s1)
      | (Unfinished, s1) \<Rightarrow> (Unfinished, s1))"

text \<open>
  A set of modules that keeps \<open>_startModule\<close> from returning: each is registered and
  uninitialised and depends on a module of the set. The modules of a dependency cycle
  that has not started are such a set.
\<close>

definition cyclic_set :: "ModuleManager \<Rightarrow> string set \<Rightarrow> bool" where
  "cyclic_set s C =
     (\<forall>name \<in> C. \<exists>m. getModule s name = Some m \<and> moduleStatus m = UNINITIALIZED \<and>
                      (\<exists>d \<in> set (dependentModules m). d \<in> C))"

section \<open>JobQueue.ts\<close>

text \<open>
  What the queue sees of its surroundings when it runs: the module objects known to the
  \<open>ModuleManager\<close>, by name, and the reading of \<open>performance.now()\<close>. Both change
  between the calls of the queue's methods, so every call takes its own.
\<close>

record world =
  registry :: "string \<Rightarrow> Module option"
  clock :: nat

text \<open>
  Modelled from the spec: \<open>BaseModule.canRunJobs\<close> is not part of the sources. The spec:
  a subsystem "cannot run jobs (status not STARTED)".
\<close>

definition canRunJobs :: "Module \<Rightarrow> bool" where
  "canRunJobs m = (moduleStatus m = STARTED)"

text \<open>\<open>job.getModule().canRunJobs()\<close>, the module object found by its name.\<close>

definition jobCanRun :: "world \<Rightarrow> Job \<Rightarrow> bool" where
  "jobCanRun w j = (case registry w (module j) of None \<Rightarrow> False | Some m \<Rightarrow> canRunJobs m)"

text \<open>
  The caller's pair of \<open>resolve\<close> and \<open>reject\<close> functions is identified by a number.
  What the queue does to the outside is recorded as a list of effects: a call of
  \<open>job.execute()\<close> on a job object, and a call of \<open>resolve\<close> or \<open>reject\<close>.
\<close>

type_synonym callback = nat

datatype effect = Executes nat | Resolves callback data | Rejects callback error

text \<open>
  The fields of a \<open>JobQueue\<close>. The three arrays hold references to \<open>Job\<close> objects,
  which are mutable and shared between the arrays: a reference is a number, \<open>heap\<close>
  maps it to the object and \<open>allocated\<close> is the number of objects created. \<open>pending\<close>
  holds the promises of \<open>job.execute()\<close> that the dispatch pass has attached its handlers
  to and that have not settled: the job, the callback captured by the handlers, and the
  error when a guard of \<open>execute\<close> rejected the call at once.
\<close>

record JobQueue =
  concurrency :: nat
  isPaused :: bool
  jobs :: "nat list"
  queue :: "nat list"
  active :: "nat list"
  processLock :: bool
  callbacks :: "string \<Rightarrow> callback option"
  heap :: "nat \<Rightarrow> Job"
  allocated :: nat
  pending :: "(nat \<times> callback \<times> error option) list"
  effects :: "effect list"

definition JobQueue_new :: JobQueue where
  "JobQueue_new =
     \<lparr> concurrency = 50, isPaused = True, jobs = [], queue = [], active = [],
       processLock = False, callbacks = (\<lambda>u. None),
       heap = (\<lambda>r. Job_new [] None [] 0), allocated = 0, pending = [], effects = [] \<rparr>"

text \<open>\<open>getJob\<close>: the first job of \<open>_jobs\<close> with the identifier.\<close>

definition getJob :: "JobQueue \<Rightarrow> string \<Rightarrow> nat option" where
  "getJob s jobId = find (\<lambda>job. uuid (heap s job) = jobId) (jobs s)"

text \<open>
  The call \<open>job.execute()\<close> of the dispatch pass, up to the first \<open>await\<close> of
  \<open>execute\<close>: the job object is updated unless a guard refuses the call.
\<close>

definition call_execute :: "world \<Rightarrow> nat \<Rightarrow> JobQueue \<Rightarrow> error option \<times> JobQueue" where
  "call_execute w job s =
     (case execute_begin (jobCanRun w (heap s job)) (clock w) (heap s job) of
        Inl e \<Rightarrow> (Some e, s\<lparr>effects := effects s @ [Executes job]\<rparr>)
      | Inr j \<Rightarrow> (None, s\<lparr>heap := (heap s)(job := j), effects := effects s @ [Executes job]\<rparr>))"

text \<open>
  The \<open>for\<close> loop of \<open>_process\<close>, from index \<open>i\<close>. \<open>sort\<close> works in place and returns
  its array, so \<open>jobs\<close> is the array \<open>this._queue\<close> itself: \<open>jobs.length\<close> and
  \<open>jobs[i]\<close> read the queue as the loop has left it. When no callback is registered
  under the job's identifier, \<open>callback.resolve\<close> is a TypeError after \<open>job.execute()\<close>
  has been called: \<open>_process\<close> ends there, without its final unlock.
\<close>

function process_loop :: "world \<Rightarrow> nat \<Rightarrow> JobQueue \<Rightarrow> JobQueue" where
  "process_loop w i s =
     (if i < length (queue s) then
        (let job = queue s ! i in
         if \<not> jobCanRun w (heap s job) then process_loop w (i + 1) s
         else
           (let s1 = s\<lparr>queue := splice1 (indexOf (queue s) job) (queue s),
                        active := active s @ [job]\<rparr>;
                callback = callbacks s1 (uuid (heap s1 job));
                early = fst (call_execute w job s1);
                s2 = snd (call_execute w job s1)
            in case callback of
                 None \<Rightarrow> s2
               | Some cb \<Rightarrow>
                   (let s3 = s2\<lparr>pending := pending s2 @ [(job, cb, early)]\<rparr>
                    in if length (active s3) \<ge> concurrency s3 then s3\<lparr>processLock := False\<rparr>
                       else process_loop w (i + 1) s3)))
      else s\<lparr>processLock := False\<rparr>)"
  by pat_completeness auto

lemma length_splice1_le: "length (splice1 k xs) \<le> length xs"
  by (simp add: splice1_def Let_def)

lemma queue_call_execute: "queue (snd (call_execute w job s)) = queue s"
  by (simp add: call_execute_def split: sum.splits)

termination process_loop
proof (relation "measure (\<lambda>(w, i, s). length (queue s) - i)", goal_cases)
  case 1
  show ?case by simp
next
  case (2 w i s job)
  then show ?case by simp
next
  case (3 w i s job s1 callback early s2 cb s3)
  have "queue s3 = queue s1"
    using 3 queue_call_execute[of w job s1] by simp
  moreover have "length (queue s1) \<le> length (queue s)"
    using 3 by (simp add: length_splice1_le)
  ultimately show ?case using 3 by simp
qed

declare process_loop.simps [simp del]

text \<open>
  \<open>_process\<close>: the lock and the three reasons not to run, then the queue is sorted in
  place by priority (\<open>sort\<close> is stable) and the loop runs.
\<close>

definition process :: "world \<Rightarrow> JobQueue \<Rightarrow> JobQueue" where
  "process w s =
     (if processLock s then s
      else if isPaused s \<or> length (active s) \<ge> concurrency s \<or> length (queue s) = 0 then s
      else process_loop w 0
             (s\<lparr>processLock := True,
                 queue := sort_key (\<lambda>job. priority (heap s job)) (queue s)\<rparr>))"

definition pause :: "JobQueue \<Rightarrow> JobQueue" where
  "pause s = s\<lparr>isPaused := True\<rparr>"

definition resume :: "world \<Rightarrow> JobQueue \<Rightarrow> JobQueue" where
  "resume w s = process w (s\<lparr>isPaused := False\<rparr>)"

text \<open>
  \<open>queueJob\<close>, for a job name the module knows (\<open>module.getJob\<close> belongs to
  \<open>BaseModule\<close>). \<open>queued\<close> is its body up to the call of \<open>_process\<close>: the job
  object is created with the identifier \<open>u\<close> that \<open>generateUuid()\<close> returned, the
  callback is registered, and the job is pushed on \<open>_jobs\<close> and \<open>_queue\<close>.
\<close>

definition queued :: "world \<Rightarrow> string \<Rightarrow> JobOptions option \<Rightarrow> string \<Rightarrow> callback \<Rightarrow> JobQueue \<Rightarrow> JobQueue" where
  "queued w moduleName options u cb s =
     (let job = allocated s;
          s1 = s\<lparr>heap := (heap s)(job := Job_new moduleName options u (clock w)),
                 allocated := Suc (allocated s)\<rparr>;
          s2 = s1\<lparr>callbacks := (callbacks s1)(uuid (heap s1 job) := Some cb)\<rparr>;
          s3 = s2\<lparr>jobs := jobs s2 @ [job]\<rparr>;
          s4 = s3\<lparr>queue := queue s3 @ [job]\<rparr>
      in s4)"

definition queueJob ::
    "world \<Rightarrow> string \<Rightarrow> JobOptions option \<Rightarrow> string \<Rightarrow> callback \<Rightarrow> JobQueue \<Rightarrow> error + JobQueue" where
  "queueJob w moduleName options u cb s =
     (case registry w moduleName of
        None \<Rightarrow> Inl ''Module not found.''
      | Some m \<Rightarrow> Inr (process w (queued w moduleName options u cb s)))"

text \<open>
  The promise at position \<open>k\<close> of \<open>pending\<close> settles and its handlers run.
  \<open>settled\<close> is the handlers up to their call of \<open>_process\<close>: the execution ends
  with what the phases \<open>ph\<close> give (or had been refused at once), the callback captured
  by the dispatch pass is called, and the \<open>finally\<close> handler deletes the callback entry
  and takes the job out of \<open>_active\<close> if it is there. Then the dispatch pass runs.
\<close>

definition settled :: "world \<Rightarrow> nat \<Rightarrow> phases \<Rightarrow> JobQueue \<Rightarrow> JobQueue" where
  "settled w k ph s =
     (let job = fst (pending s ! k);
          cb = fst (snd (pending s ! k));
          early = snd (snd (pending s ! k));
          s1 = (case early of
                  Some e \<Rightarrow> s
                | None \<Rightarrow>
                    s\<lparr>heap := (heap s)(job := fst (execute_rest ph (clock w) (heap s job)))\<rparr>);
          result = (case early of
                      Some e \<Rightarrow> Inl e
                    | None \<Rightarrow> snd (snd (execute_rest ph (clock w) (heap s job))));
          s2 = s1\<lparr>pending := take k (pending s1) @ drop (Suc k) (pending s1),
                  effects := effects s1 @
                    [case result of Inl e \<Rightarrow> Rejects cb e | Inr d \<Rightarrow> Resolves cb d]\<rparr>;
          s3 = s2\<lparr>callbacks := (callbacks s2)(uuid (heap s2 job) := None)\<rparr>;
          activeJobIndex = indexOf (active s3) job;
          s4 = (if activeJobIndex > -1
                then s3\<lparr>active := splice1 activeJobIndex (active s3)\<rparr> else s3)
      in s4)"

definition settle :: "world \<Rightarrow> nat \<Rightarrow> phases \<Rightarrow> JobQueue \<Rightarrow> JobQueue" where
  "settle w k ph s = (if k < length (pending s) then process w (settled w k ph s) else s)"

text \<open>
  What can happen to a queue: its public methods are called and pending promises settle,
  each in a world of its own.
\<close>

datatype event =
    QueueJob string "JobOptions option" string callback
  | Pause
  | Resume
  | Settle nat phases

fun apply_event :: "world \<Rightarrow> event \<Rightarrow> JobQueue \<Rightarrow> JobQueue" where
  "apply_event w (QueueJob moduleName options u cb) s =
     (case queueJob w moduleName options u cb s of Inl e \<Rightarrow> s | Inr s' \<Rightarrow> s')"
| "apply_event w Pause s = pause s"
| "apply_event w Resume s = resume w s"
| "apply_event w (Settle k ph) s = settle w k ph s"

text \<open>
  Modelled from the spec: \<open>generateUuid\<close> is not part of the sources. The spec: the id
  is a "globally unique token, assigned at creation"; so the identifier of a new job is
  none of those of the jobs created before.
\<close>

fun fresh_uuid :: "JobQueue \<Rightarrow> event \<Rightarrow> bool" where
  "fresh_uuid s (QueueJob moduleName options u cb) =
     (\<forall>job < allocated s. uuid (heap s job) \<noteq> u)"
| "fresh_uuid s e = True"

text \<open>The states a queue goes through, from its construction.\<close>

inductive reachable :: "JobQueue \<Rightarrow> bool" where
  reachable_new: "reachable JobQueue_new"
| reachable_event: "reachable s \<Longrightarrow> fresh_uuid s e \<Longrightarrow> reachable (apply_event w e s)"

text \<open>The states that follow a given state.\<close>

inductive follows :: "JobQueue \<Rightarrow> JobQueue \<Rightarrow> bool" where
  follows_refl: "follows s s"
| follows_event: "follows s t \<Longrightarrow> fresh_uuid t e \<Longrightarrow> follows s (apply_event w e t)"

text \<open>
  The queue after a sequence of events from its construction, each event in its world
  and with any identifier.
\<close>

definition run_events :: "(world \<times> event) list \<Rightarrow> JobQueue" where
  "run_events es = foldl (\<lambda>s we. apply_event (fst we) (snd we) s) JobQueue_new es"

section \<open>Auxiliary definitions\<close>

text \<open>
  One round of the loop of \<open>_process\<close> that dispatches the job at index \<open>i\<close>, named
  for the proofs: with a registered callback, and without one.
\<close>

definition dispatched :: "world \<Rightarrow> nat \<Rightarrow> callback \<Rightarrow> JobQueue \<Rightarrow> JobQueue" where
  "dispatched w i cb s =
     (let job = queue s ! i;
          s1 = s\<lparr>queue := splice1 (indexOf (queue s) job) (queue s), active := active s @ [job]\<rparr>
      in (snd (call_execute w job s1))
           \<lparr>pending := pending s @ [(job, cb, fst (call_execute w job s1))]\<rparr>)"

definition aborted :: "world \<Rightarrow> nat \<Rightarrow> JobQueue \<Rightarrow> JobQueue" where
  "aborted w i s =
     (let job = queue s ! i
      in snd (call_execute w job
               (s\<lparr>queue := splice1 (indexOf (queue s) job) (queue s), active := active s @ [job]\<rparr>)))"


text \<open>Phases whose validation fails; every reporting call returns.\<close>

definition ph_invalid :: phases where
  "ph_invalid =
     \<lparr> p_validate = Some ''invalid payload'', p_authorize = None, p_execute = Inr ''ok'',
       p_callbackRef = False, p_report = (\<lambda>call. None) \<rparr>"

text \<open>
  The stages of the life of a job object: queued, under way, finished with the
  \<open>finally\<close> block cut short by an error of the statistics, and completed.
\<close>

definition life_inv :: "job_life \<Rightarrow> bool" where
  "life_inv r =
     ((status (the_job r) = QUEUED \<and> \<not> hasStarted (the_job r) \<and> underway r = 0 \<and> ran r = []) \<or>
      (status (the_job r) = ACTIVE \<and> hasStarted (the_job r) \<and> underway r = 1 \<and> ran r = []) \<or>
      (status (the_job r) = ACTIVE \<and> hasStarted (the_job r) \<and> underway r = 0 \<and>
       length (ran r) = 1) \<or>
      (status (the_job r) = COMPLETED \<and> hasStarted (the_job r) \<and> underway r = 0 \<and>
       length (ran r) = 1))"

text \<open>
  What \<open>_startModule\<close> maintains of such a set: it stays one, and the startup routine
  of none of its modules has been invoked.
\<close>

definition keeps_cycle :: "string set \<Rightarrow> ModuleManager \<Rightarrow> bool" where
  "keeps_cycle C s = (cyclic_set s C \<and> set (startups s) \<inter> C = {})"

text \<open>
  Three loaded modules: \<open>api\<close> depends on nothing, \<open>data\<close> and \<open>events\<close> depend
  on each other.
\<close>

definition modules_cyclic :: ModuleManager where
  "modules_cyclic =
     \<lparr> modules =
         [(''api'', \<lparr>moduleStatus = UNINITIALIZED, dependentModules = []\<rparr>),
          (''data'', \<lparr>moduleStatus = UNINITIALIZED, dependentModules = [''events'']\<rparr>),
          (''events'', \<lparr>moduleStatus = UNINITIALIZED, dependentModules = [''data'']\<rparr>)],
       startups = [], shutdowns = [], resumed = False \<rparr>"

text \<open>
  The queued jobs as a dispatch pass needs them: no job twice, each with a registered
  callback and not yet executed.
\<close>

definition queued_ok :: "JobQueue \<Rightarrow> bool" where
  "queued_ok s =
     (distinct (queue s) \<and>
      (\<forall>job \<in> set (queue s). callbacks s (uuid (heap s job)) \<noteq> None \<and>
                               \<not> hasStarted (heap s job) \<and> status (heap s job) = QUEUED))"

text \<open>A job object once \<open>execute\<close> has passed its guards.\<close>

definition launched :: "world \<Rightarrow> Job \<Rightarrow> Job" where
  "launched w j = j\<lparr>status := ACTIVE, startedAt := Some (clock w)\<rparr>"

text \<open>
  What a dispatch pass does when it dispatches the jobs \<open>new\<close>, in this order.
\<close>

definition pass_result :: "world \<Rightarrow> JobQueue \<Rightarrow> nat list \<Rightarrow> JobQueue \<Rightarrow> bool" where
  "pass_result w s new s' =
     (distinct new \<and> set new \<subseteq> set (queue s) \<and>
      distinct (queue s') \<and> set (queue s') = set (queue s) - set new \<and>
      active s' = active s @ new \<and>
      map fst (pending s') = map fst (pending s) @ new \<and>
      effects s' = effects s @ map Executes new \<and>
      (\<forall>job. heap s' job = (if job \<in> set new then launched w (heap s job) else heap s job)) \<and>
      (\<forall>job \<in> set new. jobCanRun w (heap s job)) \<and>
      callbacks s' = callbacks s \<and> jobs s' = jobs s \<and> allocated s' = allocated s \<and>
      isPaused s' = isPaused s \<and> concurrency s' = concurrency s)"

text \<open>
  The invariant of the queue between the calls of its methods: the arrays hold distinct
  references to created jobs with distinct identifiers, a job is queued or active but
  not both, the pending promises are those of the active jobs, in order, and \<open>execute\<close>
  has been called once on every job that has left the queue and never on a queued one.
\<close>

definition well_formed :: "JobQueue \<Rightarrow> bool" where
  "well_formed s =
     (jobs s = [0..<allocated s] \<and>
      (\<forall>a < allocated s. \<forall>b < allocated s. uuid (heap s a) = uuid (heap s b) \<longrightarrow> a = b) \<and>
      queued_ok s \<and>
      (\<forall>job \<in> set (queue s). job < allocated s) \<and>
      distinct (active s) \<and>
      (\<forall>job \<in> set (active s). job < allocated s) \<and>
      set (queue s) \<inter> set (active s) = {} \<and>
      map fst (pending s) = active s \<and>
      \<not> processLock s \<and>
      (\<forall>job. count_list (effects s) (Executes job) =
               (if job < allocated s \<and> job \<notin> set (queue s) then 1 else 0)))"

text \<open>The fields of a job object that are set by the constructor only.\<close>

definition same_identity :: "Job \<Rightarrow> Job \<Rightarrow> bool" where
  "same_identity j j' = (uuid j' = uuid j \<and> module j' = module j \<and> priority j' = priority j)"

text \<open>Phases that all succeed; every reporting call returns.\<close>

definition ph_success :: phases where
  "ph_success =
     \<lparr> p_validate = None, p_authorize = None, p_execute = Inr ''done'',
       p_callbackRef = False, p_report = (\<lambda>call. None) \<rparr>"

text \<open>
  A way to have a dispatch pass run with room for a job: \<open>resume()\<close> is called, and
  when the active set is full the oldest pending promise settles after it, whose
  \<open>finally\<close> handler runs the pass.
\<close>

definition dispatch_round :: "world \<Rightarrow> phases \<Rightarrow> JobQueue \<Rightarrow> JobQueue" where
  "dispatch_round w ph s =
     (if concurrency s \<le> length (active s) then settle w 0 ph (resume w s) else resume w s)"

text \<open>The concurrency bound is positive and respected.\<close>

definition bounded :: "JobQueue \<Rightarrow> bool" where
  "bounded s = (0 < concurrency s \<and> length (active s) \<le> concurrency s)"

text \<open>
  A cycle that runs through first dependencies: each module of the set is registered
  and uninitialised, and the first module it depends on is in the set.
\<close>

definition first_dependency_cycle :: "ModuleManager \<Rightarrow> string set \<Rightarrow> bool" where
  "first_dependency_cycle s C =
     (\<forall>name \<in> C. \<exists>m d ds. getModule s name = Some m \<and> moduleStatus m = UNINITIALIZED \<and>
                         dependentModules m = d # ds \<and> d \<in> C)"

text \<open>
  Two loaded modules: \<open>data\<close> depends on nothing, \<open>stations\<close> on \<open>data\<close> and then
  on itself.
\<close>

definition modules_later_cycle :: ModuleManager where
  "modules_later_cycle =
     \<lparr> modules =
         [(''data'', \<lparr>moduleStatus = UNINITIALIZED, dependentModules = []\<rparr>),
          (''stations'', \<lparr>moduleStatus = UNINITIALIZED,
                          dependentModules = [''data'', ''stations'']\<rparr>)],
       startups = [], shutdowns = [], resumed = False \<rparr>"

text \<open>The same once \<open>data\<close> has started.\<close>

definition modules_later_cycle_started :: ModuleManager where
  "modules_later_cycle_started =
     \<lparr> modules =
         [(''data'', \<lparr>moduleStatus = STARTED, dependentModules = []\<rparr>),
          (''stations'', \<lparr>moduleStatus = UNINITIALIZED,
                          dependentModules = [''data'', ''stations'']\<rparr>)],
       startups = [''data''], shutdowns = [], resumed = False \<rparr>"

text \<open>
  Every promise under way belongs to a job whose callback is still registered, and the
  callback it holds is the registered one: the one \<open>_process\<close> read from
  \<open>_callbacks\<close> when it dispatched the job.
\<close>

definition pending_ok :: "JobQueue \<Rightarrow> bool" where
  "pending_ok s =
     (\<forall>p \<in> set (pending s). callbacks s (uuid (heap s (fst p))) = Some (fst (snd p)) \<and>
                            snd (snd p) = None)"



text \<open>
  Two worlds for the examples: in both the only module is \<open>data\<close>; it is STARTED in
  the first and in ERROR in the second.
\<close>

definition world_started :: world where
  "world_started =
     \<lparr> registry = (\<lambda>name. if name = ''data''
                              then Some \<lparr> moduleStatus = STARTED, dependentModules = [] \<rparr>
                              else None),
       clock = 1 \<rparr>"

definition world_error :: world where
  "world_error =
     \<lparr> registry = (\<lambda>name. if name = ''data''
                              then Some \<lparr> moduleStatus = ERROR, dependentModules = [] \<rparr>
                              else None),
       clock = 1 \<rparr>"

section \<open>The constructor of a job\<close>

text \<open>
  C9. The priority of a new job is \<open>options.priority\<close> whenever it is provided. The
  constructor tests \<open>if (priority)\<close>, and the number 0 is falsy: a job submitted with
  \<open>priority: 0\<close> keeps the default priority 1.
\<close>

theorem Job_new_priority_zero:
  "priority (Job_new ''data'' (Some \<lparr>opt_priority = Some 0, opt_longJob = None\<rparr>) ''a'' 7) = 1"
  by (simp add: Job_new_def)

section \<open>The order of shutdown\<close>

text \<open>
  C4. \<open>shutdown\<close> stops a module only after all the modules that depend on it. With
  three running modules, \<open>api\<close> depending on \<open>events\<close> and \<open>data\<close> on \<open>api\<close>, the
  computed order stops \<open>events\<close> first, before \<open>api\<close>, which depends on it: moving
  \<open>api\<close> behind \<open>data\<close> leaves the dependency of \<open>api\<close> where it was.
\<close>

theorem shutdownOrder_transitive_dependency:
  "shutdownOrder
     [(''api'', \<lparr>moduleStatus = STARTED, dependentModules = [''events'']\<rparr>),
      (''data'', \<lparr>moduleStatus = STARTED, dependentModules = [''api'']\<rparr>),
      (''events'', \<lparr>moduleStatus = STARTED, dependentModules = []\<rparr>)]
   = [''events'', ''data'', ''api'']"
  by code_simp

section \<open>The dispatch pass on a queue of several eligible jobs\<close>

text \<open>
  C2. A dispatch pass dispatches eligible jobs until the concurrency bound is reached or
  no eligible job remains in the queue. Two jobs are submitted for the started module
  \<open>data\<close> while the queue is paused, and the queue is resumed: the pass dispatches the
  first job only. The second is eligible and stays queued with one job active out of 50:
  the splice has moved it to the index the loop has just left.
\<close>

theorem process_leaves_eligible_job:
  "(let s = apply_event world_started Resume
             (apply_event world_started (QueueJob ''data'' None ''b'' 2)
               (apply_event world_started (QueueJob ''data'' None ''a'' 1) JobQueue_new))
    in queue s = [1] \<and> active s = [0] \<and> effects s = [Executes 0] \<and>
       jobCanRun world_started (heap s 1) \<and> \<not> isPaused s \<and> \<not> processLock s \<and>
       length (active s) < concurrency s)"
  by code_simp

text \<open>
  C3. Among eligible queued jobs, one with a lower priority value is dispatched no later
  than one with a higher value, and of two with equal priority the earlier one first.
  Three jobs are submitted for the started module \<open>data\<close> while the queue is paused,
  with priorities 1, 1 and 2, and the queue is resumed: the pass dispatches the first and
  the third job. The second one, of priority 1, is still queued when the job of priority
  2 submitted after it is running.
\<close>

theorem process_dispatches_out_of_order:
  "(let s = apply_event world_started Resume
             (apply_event world_started
               (QueueJob ''data'' (Some \<lparr>opt_priority = Some 2, opt_longJob = None\<rparr>) ''c'' 3)
               (apply_event world_started (QueueJob ''data'' None ''b'' 2)
                 (apply_event world_started (QueueJob ''data'' None ''a'' 1) JobQueue_new)))
    in map (\<lambda>job. priority (heap s job)) [0, 1, 2] = [1, 1, 2] \<and>
       queue s = [1] \<and> active s = [0, 2] \<and> effects s = [Executes 0, Executes 2] \<and>
       jobCanRun world_started (heap s 1))"
  by code_simp

section \<open>The concurrency bound\<close>

lemma finally_block_fields [simp]:
  "uuid (fst (finally_block ph t j)) = uuid j"
  "module (fst (finally_block ph t j)) = module j"
  "priority (fst (finally_block ph t j)) = priority j"
  "startedAt (fst (finally_block ph t j)) = startedAt j"
  by (simp_all add: finally_block_def Let_def split: option.splits)

lemma finally_block_status:
  "status (fst (finally_block ph t j)) = status j \<or>
   status (fst (finally_block ph t j)) = COMPLETED"
  by (simp add: finally_block_def Let_def split: option.splits)

lemma execute_rest_parts [simp]:
  "fst (execute_rest ph t j) = fst (finally_block ph t j)"
  "fst (snd (execute_rest ph t j)) = fst (run_phases ph)"
  by (simp_all add: execute_rest_def Let_def)

lemma hasStarted_finally [simp]: "hasStarted (fst (finally_block ph t j)) = hasStarted j"
  by (simp add: hasStarted_def)

lemma call_execute_fields [simp]:
  "concurrency (snd (call_execute w job s)) = concurrency s"
  "isPaused (snd (call_execute w job s)) = isPaused s"
  "jobs (snd (call_execute w job s)) = jobs s"
  "active (snd (call_execute w job s)) = active s"
  "processLock (snd (call_execute w job s)) = processLock s"
  "callbacks (snd (call_execute w job s)) = callbacks s"
  "allocated (snd (call_execute w job s)) = allocated s"
  "pending (snd (call_execute w job s)) = pending s"
  "effects (snd (call_execute w job s)) = effects s @ [Executes job]"
  by (simp_all add: call_execute_def split: sum.splits)

lemma process_loop_step:
  "process_loop w i s =
     (if i < length (queue s) then
        (if \<not> jobCanRun w (heap s (queue s ! i)) then process_loop w (Suc i) s
         else (case callbacks s (uuid (heap s (queue s ! i))) of
                 None \<Rightarrow> aborted w i s
               | Some cb \<Rightarrow>
                   if concurrency s \<le> Suc (length (active s))
                   then (dispatched w i cb s)\<lparr>processLock := False\<rparr>
                   else process_loop w (Suc i) (dispatched w i cb s)))
      else s\<lparr>processLock := False\<rparr>)"
  by (subst process_loop.simps)
     (simp add: Let_def dispatched_def aborted_def split: option.splits)

lemma dispatched_fields [simp]:
  "concurrency (dispatched w i cb s) = concurrency s"
  "isPaused (dispatched w i cb s) = isPaused s"
  "jobs (dispatched w i cb s) = jobs s"
  "active (dispatched w i cb s) = active s @ [queue s ! i]"
  "queue (dispatched w i cb s) = splice1 (indexOf (queue s) (queue s ! i)) (queue s)"
  "processLock (dispatched w i cb s) = processLock s"
  "callbacks (dispatched w i cb s) = callbacks s"
  "allocated (dispatched w i cb s) = allocated s"
  "effects (dispatched w i cb s) = effects s @ [Executes (queue s ! i)]"
  by (simp_all add: dispatched_def Let_def queue_call_execute)

lemma aborted_fields [simp]:
  "concurrency (aborted w i s) = concurrency s"
  "isPaused (aborted w i s) = isPaused s"
  "jobs (aborted w i s) = jobs s"
  "active (aborted w i s) = active s @ [queue s ! i]"
  "queue (aborted w i s) = splice1 (indexOf (queue s) (queue s ! i)) (queue s)"
  "processLock (aborted w i s) = processLock s"
  "callbacks (aborted w i s) = callbacks s"
  "allocated (aborted w i s) = allocated s"
  "pending (aborted w i s) = pending s"
  "effects (aborted w i s) = effects s @ [Executes (queue s ! i)]"
  by (simp_all add: aborted_def Let_def queue_call_execute)

lemma process_loop_induct [consumes 0, case_names loop]:
  assumes "\<And>i s.
     (i < length (queue s) \<Longrightarrow> \<not> jobCanRun w (heap s (queue s ! i)) \<Longrightarrow> P (Suc i) s) \<Longrightarrow>
     (\<And>cb. i < length (queue s) \<Longrightarrow> jobCanRun w (heap s (queue s ! i)) \<Longrightarrow>
            callbacks s (uuid (heap s (queue s ! i))) = Some cb \<Longrightarrow>
            \<not> concurrency s \<le> Suc (length (active s)) \<Longrightarrow> P (Suc i) (dispatched w i cb s)) \<Longrightarrow>
     P i s"
  shows "P i s"
proof (induction "length (queue s) - i" arbitrary: i s rule: less_induct)
  case less
  show ?case
  proof (rule assms)
    assume "i < length (queue s)"
    then show "P (Suc i) s" by (intro less) simp
  next
    fix cb
    assume "i < length (queue s)"
    moreover have "length (queue (dispatched w i cb s)) \<le> length (queue s)"
      by (simp add: length_splice1_le)
    ultimately show "P (Suc i) (dispatched w i cb s)" by (intro less) simp
  qed
qed

lemma process_loop_bound:
  "length (active s) < concurrency s \<Longrightarrow>
   length (active (process_loop w i s)) \<le> concurrency s \<and>
   concurrency (process_loop w i s) = concurrency s"
proof (induction i s rule: process_loop_induct[where w = w])
  case (loop i s)
  show ?case
    using loop by (subst (1 2) process_loop_step) (auto split: option.splits)
qed

lemma process_bound:
  "length (active s) \<le> concurrency s \<Longrightarrow>
   length (active (process w s)) \<le> concurrency s \<and> concurrency (process w s) = concurrency s"
  using process_loop_bound[of "s\<lparr>processLock := True, queue := sort_key (\<lambda>job. priority (heap s job)) (queue s)\<rparr>" w 0]
  by (simp add: process_def)

lemma settle_eq:
  "settle w k ph s = (if k < length (pending s) then process w (settled w k ph s) else s)"
  by (rule settle_def)

lemma settled_fields [simp]:
  "concurrency (settled w k ph s) = concurrency s"
  "isPaused (settled w k ph s) = isPaused s"
  "jobs (settled w k ph s) = jobs s"
  "queue (settled w k ph s) = queue s"
  "processLock (settled w k ph s) = processLock s"
  "allocated (settled w k ph s) = allocated s"
  "pending (settled w k ph s) = take k (pending s) @ drop (Suc k) (pending s)"
  by (simp_all add: settled_def Let_def split: option.splits)

lemma settled_active:
  "active (settled w k ph s) =
     (if indexOf (active s) (fst (pending s ! k)) > -1
      then splice1 (indexOf (active s) (fst (pending s ! k))) (active s) else active s)"
  by (simp add: settled_def Let_def split: option.splits)

lemma settle_bound:
  assumes "length (active s) \<le> concurrency s"
  shows "length (active (settle w k ph s)) \<le> concurrency s \<and>
         concurrency (settle w k ph s) = concurrency s"
proof (cases "k < length (pending s)")
  case False
  then show ?thesis using assms by (simp add: settle_eq)
next
  case True
  have "length (active (settled w k ph s)) \<le> concurrency (settled w k ph s)"
    using assms length_splice1_le[of "indexOf (active s) (fst (pending s ! k))" "active s"]
    by (simp add: settled_active)
  from process_bound[OF this, of w] show ?thesis
    using True by (simp add: settle_eq)
qed

lemma queueJob_eq:
  "queueJob w moduleName options u cb s =
     (case registry w moduleName of
        None \<Rightarrow> Inl ''Module not found.''
      | Some m \<Rightarrow> Inr (process w (queued w moduleName options u cb s)))"
  by (rule queueJob_def)

lemma queued_fields [simp]:
  "concurrency (queued w m options u cb s) = concurrency s"
  "isPaused (queued w m options u cb s) = isPaused s"
  "jobs (queued w m options u cb s) = jobs s @ [allocated s]"
  "queue (queued w m options u cb s) = queue s @ [allocated s]"
  "active (queued w m options u cb s) = active s"
  "processLock (queued w m options u cb s) = processLock s"
  "allocated (queued w m options u cb s) = Suc (allocated s)"
  "pending (queued w m options u cb s) = pending s"
  "effects (queued w m options u cb s) = effects s"
  "heap (queued w m options u cb s) = (heap s)(allocated s := Job_new m options u (clock w))"
  by (simp_all add: queued_def Let_def)

lemma queueJob_bound:
  assumes "length (active s) \<le> concurrency s" and "queueJob w m options u cb s = Inr s'"
  shows "length (active s') \<le> concurrency s \<and> concurrency s' = concurrency s"
proof (cases "registry w m")
  case None
  then show ?thesis using assms by (simp add: queueJob_eq)
next
  case (Some a)
  then have "s' = process w (queued w m options u cb s)"
    using assms(2) by (simp add: queueJob_eq)
  then show ?thesis using process_bound[of "queued w m options u cb s" w] assms(1) by simp
qed

lemma apply_event_bound:
  assumes "length (active s) \<le> concurrency s"
  shows "length (active (apply_event w e s)) \<le> concurrency s \<and>
         concurrency (apply_event w e s) = concurrency s"
proof (cases e)
  case (QueueJob m options u cb)
  show ?thesis
  proof (cases "queueJob w m options u cb s")
    case (Inl e)
    then show ?thesis using QueueJob assms by simp
  next
    case (Inr s')
    then show ?thesis using QueueJob queueJob_bound[OF assms Inr] by simp
  qed
next
  case Pause
  then show ?thesis using assms by (simp add: pause_def)
next
  case Resume
  then show ?thesis using assms process_bound[of "s\<lparr>isPaused := False\<rparr>" w] by (simp add: resume_def)
next
  case (Settle k ph)
  then show ?thesis using settle_bound[OF assms] by simp
qed

text \<open>
  C1. After every sequence of submissions, pauses, resumptions and completions from the
  construction of the queue, in any worlds, the number of active jobs is at most the
  concurrency bound, and the bound is 50: the constructor establishes this, and every
  method and every completion handler, with the dispatch pass it runs, preserves it.
\<close>

theorem active_bounded:
  "length (active (run_events es)) \<le> concurrency (run_events es) \<and>
   concurrency (run_events es) = 50"
proof (induction es rule: rev_induct)
  case Nil
  show ?case by (simp add: run_events_def JobQueue_new_def)
next
  case (snoc we es)
  have "run_events (es @ [we]) = apply_event (fst we) (snd we) (run_events es)"
    by (simp add: run_events_def)
  then show ?case
    using snoc apply_event_bound[of "run_events es" "fst we" "snd we"] by simp
qed

section \<open>Errors of the phases\<close>




lemma settled_effects:
  "effects (settled w k ph s) = effects s @
     [case (case snd (snd (pending s ! k)) of
              Some e \<Rightarrow> Inl e
            | None \<Rightarrow> snd (snd (execute_rest ph (clock w) (heap s (fst (pending s ! k)))))) of
        Inl e \<Rightarrow> Rejects (fst (snd (pending s ! k))) e
      | Inr d \<Rightarrow> Resolves (fst (snd (pending s ! k))) d]"
  by (simp add: settled_def Let_def split: option.splits)

section \<open>The life of a job\<close>

lemma life_inv_new: "life_inv (job_life_new (Job_new m options u t))"
  by (simp add: life_inv_def job_life_new_def Job_new_def hasStarted_def Let_def
      split: option.splits)

lemma life_inv_step:
  assumes "life_inv r" and "clock_positive e"
  shows "life_inv (job_step r e) \<and>
         rank (status (the_job r)) \<le> rank (status (the_job (job_step r e)))"
proof (cases e)
  case (Call c t)
  then show ?thesis
    using assms
    by (auto simp: life_inv_def execute_begin_def hasStarted_def split: sum.splits)
next
  case (Finish ph t)
  then show ?thesis
    using assms
    using finally_block_status[of ph t "the_job r"]
    by (auto simp: life_inv_def)
qed

lemma life_inv_foldl:
  assumes "life_inv r" and "list_all clock_positive es"
  shows "life_inv (foldl job_step r es) \<and>
         rank (status (the_job r)) \<le> rank (status (the_job (foldl job_step r es)))"
  using assms
proof (induction es arbitrary: r)
  case Nil
  then show ?case by simp
next
  case (Cons e es)
  then have step: "life_inv (job_step r e)"
    "rank (status (the_job r)) \<le> rank (status (the_job (job_step r e)))"
    using life_inv_step[of r e] by simp_all
  from Cons.IH[OF step(1)] Cons.prems(2) step(2) show ?case
    by (simp add: le_trans)
qed

lemma call_after_start:
  assumes "hasStarted (the_job r)"
  shows "job_step r (Call c t) = r\<lparr>refused := refused r @ [''Job has already been executed.'']\<rparr>"
  using assms by (simp add: execute_begin_def)

text \<open>
  C6. Over the life of a job object, from its construction through any calls of
  \<open>execute\<close> and any completions (the clock readings of the calls being positive), the
  status only moves forward in the order QUEUED, ACTIVE, COMPLETED and is never PAUSED;
  at most one execution ever passes the guards, so the phases run at most once; and a
  call of \<open>execute\<close> on a job that has left QUEUED is refused with the error "Job has
  already been executed." and changes nothing else.
\<close>

theorem job_status_forward:
  assumes "list_all clock_positive es1" and "list_all clock_positive es2"
    and "r1 = foldl job_step (job_life_new (Job_new m options u t0)) es1"
    and "r2 = foldl job_step r1 es2"
  shows "rank (status (the_job r1)) \<le> rank (status (the_job r2)) \<and>
         status (the_job r1) \<in> {QUEUED, ACTIVE, COMPLETED} \<and>
         underway r1 + length (ran r1) \<le> 1 \<and>
         (status (the_job r1) \<noteq> QUEUED \<longrightarrow>
            job_step r1 (Call c t) =
              r1\<lparr>refused := refused r1 @ [''Job has already been executed.'']\<rparr>)"
proof -
  have inv1: "life_inv r1"
    using life_inv_foldl[OF life_inv_new assms(1)] assms(3) by simp
  have "rank (status (the_job r1)) \<le> rank (status (the_job r2))"
    using life_inv_foldl[OF inv1 assms(2)] assms(4) by simp
  moreover have "status (the_job r1) \<in> {QUEUED, ACTIVE, COMPLETED}"
    "underway r1 + length (ran r1) \<le> 1"
    using inv1 by (auto simp: life_inv_def)
  moreover have "status (the_job r1) \<noteq> QUEUED \<Longrightarrow> hasStarted (the_job r1)"
    using inv1 by (auto simp: life_inv_def)
  ultimately show ?thesis using call_after_start[of r1 c t] by blast
qed

theorem job_status_forward_witness:
  "(let r1 = foldl job_step (job_life_new (Job_new ''data'' None ''a'' 1)) [Call True 5];
        r2 = foldl job_step r1 [Finish ph_invalid 9, Call True 10]
    in list_all clock_positive [Call True 5] \<and>
       list_all clock_positive [Finish ph_invalid 9, Call True 10] \<and>
       status (the_job r1) = ACTIVE \<and> status (the_job r2) = COMPLETED \<and>
       rank (status (the_job r1)) \<le> rank (status (the_job r2)) \<and>
       underway r1 + length (ran r1) \<le> 1 \<and>
       ran r2 = [[Validate]] \<and>
       refused r2 = [''Job has already been executed.''] \<and>
       job_step r1 (Call True 6) =
         r1\<lparr>refused := refused r1 @ [''Job has already been executed.'']\<rparr>)"
  using job_status_forward[of "[Call True 5]" "[Finish ph_invalid 9, Call True 10]" _
      "''data''" None "''a''" 1 _ True 6, OF _ _ refl refl]
  by (simp add: Let_def job_life_new_def Job_new_def execute_begin_def finally_block_def
      hasStarted_def run_phases_def ph_invalid_def)

section \<open>Startup on a cyclic dependency graph\<close>

lemma getModule_setStatus:
  "getModule (setStatus name st s) n =
     (if n = name then map_option (\<lambda>m. m\<lparr>moduleStatus := st\<rparr>) (getModule s n)
      else getModule s n)"
proof -
  have "map_of (map (\<lambda>(k, m). if k = name then (k, m\<lparr>moduleStatus := st\<rparr>) else (k, m)) ms) n =
        (if n = name then map_option (\<lambda>m. m\<lparr>moduleStatus := st\<rparr>) (map_of ms n)
         else map_of ms n)" for ms
    by (induction ms) auto
  from this[of "modules s"] show ?thesis by (simp add: getModule_def setStatus_def)
qed

lemma startups_setStatus [simp]: "startups (setStatus name st s) = startups s"
  by (simp add: setStatus_def)

lemma keeps_cycle_setStatus:
  "keeps_cycle C s \<Longrightarrow> name \<notin> C \<Longrightarrow> keeps_cycle C (setStatus name st s)"
  by (auto simp: keeps_cycle_def cyclic_set_def getModule_setStatus)

lemma keeps_cycle_module_startup:
  assumes "keeps_cycle C s" and "name \<notin> C"
  shows "keeps_cycle C (snd (module_startup boot name s))"
proof -
  have "keeps_cycle C (s\<lparr>startups := startups s @ [name]\<rparr>)"
    using assms by (auto simp: keeps_cycle_def cyclic_set_def getModule_def)
  then show ?thesis
    using assms(2) by (auto simp: module_startup_def Let_def keeps_cycle_setStatus split: option.splits)
qed

lemma start_keeps_cycle:
  "keeps_cycle C s \<Longrightarrow>
     keeps_cycle C (snd (startModule depth n room boot name s)) \<and>
     (name \<in> C \<longrightarrow> fst (startModule depth n room boot name s) \<noteq> Returned)"
  "keeps_cycle C s \<Longrightarrow>
     keeps_cycle C (snd (startDependencies depth n room boot ds s)) \<and>
     ((\<exists>d \<in> set ds. d \<in> C) \<longrightarrow> fst (startDependencies depth n room boot ds s) \<noteq> Returned)"
proof (induction depth n room boot name s and depth n room boot ds s
    rule: startModule_startDependencies.induct)
  case (1 depth n boot name s)
  then show ?case by simp
next
  case (2 depth room boot name s)
  then show ?case by simp
next
  case (3 depth n room boot name s)
  show ?case
  proof (cases "getModule s name")
    case None
    then show ?thesis using "3.prems" by (auto simp: keeps_cycle_def cyclic_set_def)
  next
    case (Some m)
    show ?thesis
    proof (cases "moduleStatus m = UNINITIALIZED")
      case False
      then have "name \<notin> C"
        using "3.prems" Some by (auto simp: keeps_cycle_def cyclic_set_def)
      moreover have "snd (startModule depth (Suc n) (Suc room) boot name s) = s"
        using Some False by (cases "moduleStatus m") simp_all
      ultimately show ?thesis using "3.prems" by simp
    next
      case True
      let ?r = "startDependencies depth n room boot (dependentModules m) s"
      have ih: "keeps_cycle C (snd ?r)"
        "(\<exists>d \<in> set (dependentModules m). d \<in> C) \<longrightarrow> fst ?r \<noteq> Returned"
        using "3.IH"[OF Some True "3.prems"] by simp_all
      show ?thesis
      proof (cases "fst ?r = Returned")
        case False
        then have "startModule depth (Suc n) (Suc room) boot name s = ?r"
          using Some True by (cases ?r; cases "fst ?r") (simp_all)
        then show ?thesis using ih False by simp
      next
        case ret: True
        then have notin: "name \<notin> C"
          using ih(2) "3.prems" Some by (auto simp: keeps_cycle_def cyclic_set_def)
        let ?b = "module_startup boot name (snd ?r)"
        have kb: "keeps_cycle C (snd ?b)"
          using keeps_cycle_module_startup[OF ih(1) notin] .
        have "snd (startModule depth (Suc n) (Suc room) boot name s) = snd ?b \<or>
              snd (startModule depth (Suc n) (Suc room) boot name s) = setStatus name ERROR (snd ?b)"
          using Some True ret by (cases ?r; cases ?b; cases "fst ?b") (auto)
        then show ?thesis
          using kb notin keeps_cycle_setStatus[OF kb notin] by auto
      qed
    qed
  qed
next
  case (4 depth n room boot s)
  then show ?case by simp
next
  case (5 depth n room boot d ds s)
  show ?case
  proof (cases "getModule s d")
    case None
    then show ?thesis using "5.prems" by simp
  next
    case (Some dependency)
    let ?r = "startModule depth n room boot d s"
    have ih1: "keeps_cycle C (snd ?r)" "d \<in> C \<longrightarrow> fst ?r \<noteq> Returned"
      using "5.IH"(1)[OF Some "5.prems"] by simp_all
    show ?thesis
    proof (cases "fst ?r = Returned")
      case False
      then have "startDependencies depth n room boot (d # ds) s = ?r"
        using Some by (cases ?r; cases "fst ?r") simp_all
      then show ?thesis using ih1 False by simp
    next
      case True
      then have eq: "startDependencies depth n room boot (d # ds) s =
                     startDependencies depth n depth boot ds (snd ?r)"
        using Some by (cases ?r) simp
      have "d \<notin> C" using ih1(2) True by simp
      then show ?thesis
        using "5.IH"(2)[OF Some prod.collapse True ih1(1)] True eq by simp
    qed
  qed
qed

lemma startModules_keeps_cycle:
  "keeps_cycle C s \<Longrightarrow>
     keeps_cycle C (snd (startModules depth n boot names s)) \<and>
     ((\<exists>name \<in> set names. name \<in> C) \<longrightarrow> fst (startModules depth n boot names s) \<noteq> Returned)"
proof (induction names arbitrary: s)
  case Nil
  then show ?case by simp
next
  case (Cons name names)
  let ?r = "startModule depth n depth boot name s"
  have one: "keeps_cycle C (snd ?r)" "name \<in> C \<longrightarrow> fst ?r \<noteq> Returned"
    using start_keeps_cycle(1)[OF Cons.prems, of depth n depth boot name] by simp_all
  show ?case
  proof (cases "fst ?r = Returned")
    case False
    then have "startModules depth n boot (name # names) s = ?r"
      by (cases ?r; cases "fst ?r") simp_all
    then show ?thesis using one False by simp
  next
    case True
    then have "startModules depth n boot (name # names) s = startModules depth n boot names (snd ?r)"
      by (cases ?r) simp
    then show ?thesis using Cons.IH[OF one(1)] one(2) True by simp
  qed
qed

lemma startups_shutdown [simp]: "startups (shutdown s) = startups s"
  by (simp add: shutdown_def)

lemma first_dependency_overflow:
  "first_dependency_cycle s C \<Longrightarrow> name \<in> C \<Longrightarrow> room < n \<Longrightarrow>
   startModule depth n room boot name s = (Threw ''Maximum call stack size exceeded'', s)"
proof (induction room arbitrary: n name)
  case 0
  then show ?case by simp
next
  case (Suc room)
  then obtain k where n: "n = Suc k" "room < k" by (cases n) auto
  obtain m d ds where m: "getModule s name = Some m" "moduleStatus m = UNINITIALIZED"
    "dependentModules m = d # ds" "d \<in> C"
    using Suc.prems(1,2) unfolding first_dependency_cycle_def by blast
  obtain m' where d: "getModule s d = Some m'"
    using Suc.prems(1) m(4) unfolding first_dependency_cycle_def by blast
  have "startModule depth k room boot d s = (Threw ''Maximum call stack size exceeded'', s)"
    using Suc.IH[OF Suc.prems(1) m(4) n(2)] .
  then show ?case using n(1) m d by simp
qed

text \<open>
  A cycle that is entered through a later dependency never exhausts the stack: every
  call of \<open>_startModule\<close> for \<open>stations\<close> is made after an \<open>await\<close>, with the whole
  stack, and the calls nest as pending promises for as long as they are followed.
\<close>

lemma later_cycle_stations:
  "startModule (Suc (Suc d)) n (Suc (Suc d)) boot ''stations'' modules_later_cycle_started =
     (Unfinished, modules_later_cycle_started)"
proof (induction n)
  case 0
  show ?case by simp
next
  case (Suc n)
  have st: "getModule modules_later_cycle_started ''stations'' =
              Some \<lparr>moduleStatus = UNINITIALIZED, dependentModules = [''data'', ''stations'']\<rparr>"
    "getModule modules_later_cycle_started ''data'' =
              Some \<lparr>moduleStatus = STARTED, dependentModules = []\<rparr>"
    by (simp_all add: getModule_def modules_later_cycle_started_def)
  show ?case
  proof (cases n)
    case 0
    then show ?thesis using st by simp
  next
    case (Suc k)
    have "startModule (Suc (Suc d)) n (Suc d) boot ''data'' modules_later_cycle_started =
            (Returned, modules_later_cycle_started)"
      using Suc st by simp
    then show ?thesis using st Suc.IH by simp
  qed
qed

lemma startup_later_cycle_runs_on:
  "fst (startup (Suc (Suc d)) n (\<lambda>name. None) modules_later_cycle) = Unfinished"
proof (cases n)
  case 0
  then show ?thesis by (simp add: startup_def modules_later_cycle_def)
next
  case (Suc k)
  have "startModule (Suc (Suc d)) n (Suc (Suc d)) (\<lambda>name. None) ''data'' modules_later_cycle =
          (Returned, modules_later_cycle_started)"
    using Suc
    by (simp add: getModule_def modules_later_cycle_def modules_later_cycle_started_def
        module_startup_def setStatus_def)
  then show ?thesis
    using later_cycle_stations[of d n "\<lambda>name. None"]
    by (simp add: startup_def modules_later_cycle_def)
qed

text \<open>
  C5, as stated, fails: with \<open>data\<close> and \<open>events\<close> depending on each other,
  \<open>startup\<close> invokes the startup routine of \<open>api\<close> before anything fails; then the
  calls of \<open>_startModule\<close> around the cycle exhaust the stack, \<open>startup\<close> shuts
  \<open>api\<close> down again and throws the RangeError, which is no configuration error.
\<close>

theorem startup_cycle_starts_module_first:
  "fst (startup 3 8 (\<lambda>name. None) modules_cyclic) = Threw ''Maximum call stack size exceeded'' \<and>
   startups (snd (startup 3 8 (\<lambda>name. None) modules_cyclic)) = [''api''] \<and>
   shutdowns (snd (startup 3 8 (\<lambda>name. None) modules_cyclic)) = [''api'']"
  by code_simp

text \<open>
  C5, amended. When the loaded modules contain a dependency cycle that has not started
  (a set of uninitialised modules each depending on one of the set), then for every
  stack depth and however far the calls are followed, \<open>startup\<close> does not return
  normally and the startup routine of no module of the cycle is invoked; an error that
  ends it is thrown after \<open>shutdown\<close> has run; and when the cycle runs through first
  dependencies, every call of \<open>_startModule\<close> for a module of the cycle ends with the
  RangeError of the exhausted call stack.
\<close>

theorem startup_cycle_never_succeeds:
  assumes "cyclic_set s C" and "C \<noteq> {}" and "set (startups s) \<inter> C = {}"
  shows "fst (startup depth n boot s) \<noteq> Returned \<and>
         set (startups (snd (startup depth n boot s))) \<inter> C = {} \<and>
         (\<forall>e. fst (startup depth n boot s) = Threw e \<longrightarrow>
              (\<exists>s1. snd (startup depth n boot s) = shutdown s1)) \<and>
         (first_dependency_cycle s C \<longrightarrow>
            (\<forall>name \<in> C. \<forall>room < n.
               startModule depth n room boot name s =
                 (Threw ''Maximum call stack size exceeded'', s)))"
proof -
  let ?r = "startModules depth n boot (map fst (modules s)) s"
  have k: "keeps_cycle C s"
    using assms by (simp add: keeps_cycle_def)
  obtain name where name: "name \<in> C" using assms(2) by blast
  then obtain m where "map_of (modules s) name = Some m"
    using assms(1) by (auto simp: cyclic_set_def getModule_def)
  then have "name \<in> set (map fst (modules s))"
    by (metis map_of_SomeD set_zip_leftD zip_map_fst_snd)
  then have r: "keeps_cycle C (snd ?r)" "fst ?r \<noteq> Returned"
    using startModules_keeps_cycle[OF k, of depth n boot "map fst (modules s)"] name by auto
  then have "set (startups (snd ?r)) \<inter> C = {}"
    by (simp add: keeps_cycle_def)
  then have a: "fst (startup depth n boot s) \<noteq> Returned"
    "set (startups (snd (startup depth n boot s))) \<inter> C = {}"
    using r(2) by (cases ?r; cases "fst ?r"; simp add: startup_def)+
  have b: "\<exists>s1. snd (startup depth n boot s) = shutdown s1"
    if "fst (startup depth n boot s) = Threw e" for e
    using that by (cases ?r; cases "fst ?r") (auto simp: startup_def)
  have c: "startModule depth n room boot name s = (Threw ''Maximum call stack size exceeded'', s)"
    if "first_dependency_cycle s C" "name \<in> C" "room < n" for name room
    using first_dependency_overflow[OF that] .
  show ?thesis using a b c by blast
qed

theorem startup_cycle_never_succeeds_witness:
  "cyclic_set modules_cyclic {''data'', ''events''} \<and>
   first_dependency_cycle modules_cyclic {''data'', ''events''} \<and>
   fst (startup 3 8 (\<lambda>name. None) modules_cyclic) \<noteq> Returned \<and>
   set (startups (snd (startup 3 8 (\<lambda>name. None) modules_cyclic))) \<inter> {''data'', ''events''} = {} \<and>
   (\<exists>s1. snd (startup 3 8 (\<lambda>name. None) modules_cyclic) = shutdown s1) \<and>
   startModule 3 8 3 (\<lambda>name. None) ''data'' modules_cyclic =
     (Threw ''Maximum call stack size exceeded'', modules_cyclic)"
proof -
  have c: "cyclic_set modules_cyclic {''data'', ''events''}"
    by (simp add: cyclic_set_def getModule_def modules_cyclic_def)
  have f: "first_dependency_cycle modules_cyclic {''data'', ''events''}"
    by (simp add: first_dependency_cycle_def getModule_def modules_cyclic_def)
  have e: "set (startups modules_cyclic) \<inter> {''data'', ''events''} = {}"
    by (simp add: modules_cyclic_def)
  have t: "fst (startup 3 8 (\<lambda>name. None) modules_cyclic) = Threw ''Maximum call stack size exceeded''"
    by code_simp
  note inst = startup_cycle_never_succeeds[OF c _ e, of 3 8 "\<lambda>name. None"]
  have 1: "fst (startup 3 8 (\<lambda>name. None) modules_cyclic) \<noteq> Returned"
    "set (startups (snd (startup 3 8 (\<lambda>name. None) modules_cyclic))) \<inter> {''data'', ''events''} = {}"
    using inst by simp_all
  have 2: "\<exists>s1. snd (startup 3 8 (\<lambda>name. None) modules_cyclic) = shutdown s1"
    using inst t by blast
  have 3: "startModule 3 8 3 (\<lambda>name. None) ''data'' modules_cyclic =
     (Threw ''Maximum call stack size exceeded'', modules_cyclic)"
    using inst f by simp
  show ?thesis using c f 1 2 3 by (intro conjI)
qed

section \<open>Well-formed queues\<close>

lemma indexOf_absent: "x \<notin> set xs \<Longrightarrow> indexOf xs x = -1"
  by (induction xs) (auto simp: Let_def)

lemma indexOf_range: "x \<in> set xs \<Longrightarrow> 0 \<le> indexOf xs x \<and> indexOf xs x < int (length xs)"
  by (induction xs) (auto simp: Let_def)

lemma indexOf_nth:
  "distinct xs \<Longrightarrow> i < length xs \<Longrightarrow> indexOf xs (xs ! i) = int i"
proof (induction xs arbitrary: i)
  case Nil
  then show ?case by simp
next
  case (Cons y ys)
  show ?case
  proof (cases i)
    case 0
    then show ?thesis by simp
  next
    case (Suc k)
    then have "ys ! k \<noteq> y" "indexOf ys (ys ! k) = int k"
      using Cons by auto
    then show ?thesis using Suc by (simp add: Let_def)
  qed
qed

lemma splice1_nat: "i < length xs \<Longrightarrow> splice1 (int i) xs = take i xs @ drop (Suc i) xs"
  by (simp add: splice1_def Let_def min_def)

lemma splice1_index:
  assumes "distinct xs" and "i < length xs"
  shows "splice1 (indexOf xs (xs ! i)) xs = take i xs @ drop (Suc i) xs"
  using assms by (simp add: indexOf_nth splice1_nat)

lemma take_drop_distinct:
  assumes "distinct xs" and "i < length xs"
  shows "distinct (take i xs @ drop (Suc i) xs)"
    and "set (take i xs @ drop (Suc i) xs) = set xs - {xs ! i}"
proof -
  have xs: "xs = take i xs @ xs ! i # drop (Suc i) xs"
    using assms(2) by (simp add: id_take_nth_drop)
  then have d: "distinct (take i xs @ xs ! i # drop (Suc i) xs)"
    using assms(1) by simp
  then show "distinct (take i xs @ drop (Suc i) xs)" by auto
  have "set xs = set (take i xs) \<union> {xs ! i} \<union> set (drop (Suc i) xs)"
    by (subst xs) auto
  moreover have "xs ! i \<notin> set (take i xs)" "xs ! i \<notin> set (drop (Suc i) xs)"
    using d by auto
  ultimately show "set (take i xs @ drop (Suc i) xs) = set xs - {xs ! i}"
    by auto
qed

lemma dispatched_heap:
  assumes "jobCanRun w (heap s (queue s ! i))" and "\<not> hasStarted (heap s (queue s ! i))"
  shows "heap (dispatched w i cb s) = (heap s)(queue s ! i := launched w (heap s (queue s ! i)))"
    and "pending (dispatched w i cb s) = pending s @ [(queue s ! i, cb, None)]"
  using assms
  by (simp_all add: dispatched_def Let_def call_execute_def execute_begin_def launched_def)

lemma pass_result_nil:
  "distinct (queue s) \<Longrightarrow> pass_result w s [] (s\<lparr>processLock := b\<rparr>)"
  by (simp add: pass_result_def)

lemma pass_result_one:
  assumes "queued_ok s" and "i < length (queue s)" and "jobCanRun w (heap s (queue s ! i))"
  shows "pass_result w s [queue s ! i] (dispatched w i cb s)"
proof -
  have d: "distinct (queue s)" and ns: "\<not> hasStarted (heap s (queue s ! i))"
    using assms(1,2) by (simp_all add: queued_ok_def)
  have q: "queue (dispatched w i cb s) = take i (queue s) @ drop (Suc i) (queue s)"
    using d assms(2) by (simp add: splice1_index)
  show ?thesis
    unfolding pass_result_def
    using assms(2,3) take_drop_distinct[OF d assms(2)] q dispatched_heap[OF assms(3) ns, of cb]
    by simp
qed

lemma queued_ok_dispatched:
  assumes "queued_ok s" and "i < length (queue s)" and "jobCanRun w (heap s (queue s ! i))"
  shows "queued_ok (dispatched w i cb s)"
proof -
  have d: "distinct (queue s)" and ns: "\<not> hasStarted (heap s (queue s ! i))"
    using assms(1,2) by (simp_all add: queued_ok_def)
  have q: "queue (dispatched w i cb s) = take i (queue s) @ drop (Suc i) (queue s)"
    using d assms(2) by (simp add: splice1_index)
  show ?thesis
    unfolding queued_ok_def
    using assms(1) take_drop_distinct[OF d assms(2)] q dispatched_heap[OF assms(3) ns, of cb]
    by (auto simp: queued_ok_def)
qed

lemma pass_result_cons:
  assumes "pass_result w s [j] s1" and "pass_result w s1 new s2"
  shows "pass_result w s (j # new) s2"
proof -
  have j: "j \<notin> set new" "j \<in> set (queue s)" "set new \<subseteq> set (queue s)"
    using assms by (auto simp: pass_result_def)
  have h1: "heap s1 job = (if job = j then launched w (heap s job) else heap s job)" for job
    using assms(1) by (simp add: pass_result_def)
  have h2: "heap s2 job = (if job \<in> set new then launched w (heap s1 job) else heap s1 job)" for job
    using assms(2) by (simp add: pass_result_def)
  have h: "heap s2 job = (if job \<in> set (j # new) then launched w (heap s job) else heap s job)" for job
    using h1[of job] h2[of job] j(1) by auto
  have c: "\<forall>job \<in> set (j # new). jobCanRun w (heap s job)"
  proof
    fix job
    assume job: "job \<in> set (j # new)"
    show "jobCanRun w (heap s job)"
    proof (cases "job = j")
      case True
      then show ?thesis using assms(1) by (simp add: pass_result_def)
    next
      case False
      then have "job \<in> set new" using job by simp
      then have "jobCanRun w (heap s1 job)" using assms(2) by (simp add: pass_result_def)
      then show ?thesis using h1[of job] False by simp
    qed
  qed
  have rest: "distinct (j # new)" "set (j # new) \<subseteq> set (queue s)" "distinct (queue s2)"
    "set (queue s2) = set (queue s) - set (j # new)" "active s2 = active s @ j # new"
    "map fst (pending s2) = map fst (pending s) @ j # new"
    "effects s2 = effects s @ map Executes (j # new)"
    "callbacks s2 = callbacks s" "jobs s2 = jobs s" "allocated s2 = allocated s"
    "isPaused s2 = isPaused s" "concurrency s2 = concurrency s"
    using assms j by (auto simp: pass_result_def)
  show ?thesis
    unfolding pass_result_def using h c rest by blast
qed

lemma process_loop_pass:
  "queued_ok s \<Longrightarrow>
   \<exists>new. pass_result w s new (process_loop w i s) \<and> \<not> processLock (process_loop w i s) \<and>
         ((\<exists>k. i \<le> k \<and> k < length (queue s) \<and> jobCanRun w (heap s (queue s ! k))) \<longrightarrow>
          new \<noteq> [])"
proof (induction i s rule: process_loop_induct[where w = w])
  case (loop i s)
  have ok: "queued_ok s" by fact
  show ?case
  proof (cases "i < length (queue s)")
    case False
    then have "process_loop w i s = s\<lparr>processLock := False\<rparr>"
      by (subst process_loop_step) simp
    then show ?thesis
      using pass_result_nil[of s w False] ok False by (auto simp: queued_ok_def)
  next
    case inb: True
    show ?thesis
    proof (cases "jobCanRun w (heap s (queue s ! i))")
      case False
      then have eq: "process_loop w i s = process_loop w (Suc i) s"
        using inb by (subst process_loop_step) simp
      obtain new where new: "pass_result w s new (process_loop w (Suc i) s)"
        "\<not> processLock (process_loop w (Suc i) s)"
        "(\<exists>k. Suc i \<le> k \<and> k < length (queue s) \<and> jobCanRun w (heap s (queue s ! k))) \<longrightarrow>
          new \<noteq> []"
        using loop(1)[OF inb False ok] by blast
      have "new \<noteq> []"
        if "\<exists>k. i \<le> k \<and> k < length (queue s) \<and> jobCanRun w (heap s (queue s ! k))"
      proof -
        from that obtain k where k: "i \<le> k" "k < length (queue s)"
          "jobCanRun w (heap s (queue s ! k))" by blast
        then have "k \<noteq> i" using False by auto
        then have "Suc i \<le> k" using k(1) by simp
        then show ?thesis using new(3) k by blast
      qed
      then show ?thesis using new(1,2) eq by auto
    next
      case can: True
      obtain cb where cb: "callbacks s (uuid (heap s (queue s ! i))) = Some cb"
        using ok nth_mem[OF inb] by (auto simp: queued_ok_def)
      have one: "pass_result w s [queue s ! i] (dispatched w i cb s)"
        using pass_result_one[OF ok inb can] .
      show ?thesis
      proof (cases "concurrency s \<le> Suc (length (active s))")
        case True
        then have eq: "process_loop w i s = (dispatched w i cb s)\<lparr>processLock := False\<rparr>"
          using inb can cb by (subst process_loop_step) simp
        have "pass_result w s [queue s ! i] ((dispatched w i cb s)\<lparr>processLock := False\<rparr>)"
          using one by (simp add: pass_result_def)
        then show ?thesis using eq by auto
      next
        case False
        then have eq: "process_loop w i s = process_loop w (Suc i) (dispatched w i cb s)"
          using inb can cb by (subst process_loop_step) simp
        obtain new where new:
          "pass_result w (dispatched w i cb s) new (process_loop w (Suc i) (dispatched w i cb s))"
          "\<not> processLock (process_loop w (Suc i) (dispatched w i cb s))"
          using loop(2)[OF inb can cb False queued_ok_dispatched[OF ok inb can]] by blast
        show ?thesis
          using pass_result_cons[OF one new(1)] new(2) eq by auto
      qed
    qed
  qed
qed

lemma process_pass:
  assumes "queued_ok s" and "\<not> processLock s"
  shows "\<exists>new. pass_result w s new (process w s) \<and> \<not> processLock (process w s) \<and>
           (\<not> isPaused s \<and> length (active s) < concurrency s \<and>
            (\<exists>job \<in> set (queue s). jobCanRun w (heap s job)) \<longrightarrow> new \<noteq> [])"
proof (cases "isPaused s \<or> length (active s) \<ge> concurrency s \<or> length (queue s) = 0")
  case True
  then have same: "process w s = s" by (simp add: process_def)
  have "pass_result w s [] s"
    using pass_result_nil[of s w "processLock s"] assms(1) by (simp add: queued_ok_def)
  then have "pass_result w s [] (process w s) \<and> \<not> processLock (process w s) \<and>
           (\<not> isPaused s \<and> length (active s) < concurrency s \<and>
            (\<exists>job \<in> set (queue s). jobCanRun w (heap s job)) \<longrightarrow> [] \<noteq> ([]::nat list))"
    using assms(2) True same by auto
  then show ?thesis by (rule exI)
next
  case False
  let ?s0 = "s\<lparr>processLock := True,
                queue := sort_key (\<lambda>job. priority (heap s job)) (queue s)\<rparr>"
  have eq: "process w s = process_loop w 0 ?s0"
    using False assms(2) by (simp add: process_def)
  have ok0: "queued_ok ?s0"
    using assms(1) by (simp add: queued_ok_def)
  from process_loop_pass[OF ok0, of w 0]
  obtain new where all: "pass_result w ?s0 new (process_loop w 0 ?s0) \<and>
    \<not> processLock (process_loop w 0 ?s0) \<and>
    ((\<exists>k. 0 \<le> k \<and> k < length (queue ?s0) \<and> jobCanRun w (heap ?s0 (queue ?s0 ! k))) \<longrightarrow>
       new \<noteq> [])" ..
  note new = conjunct1[OF all] conjunct1[OF conjunct2[OF all]] conjunct2[OF conjunct2[OF all]]
  have p: "pass_result w s new (process_loop w 0 ?s0)"
    using new(1) unfolding pass_result_def by simp
  have "new \<noteq> []" if "\<exists>job \<in> set (queue s). jobCanRun w (heap s job)"
  proof -
    from that obtain job where job: "job \<in> set (queue s)" "jobCanRun w (heap s job)"
      by blast
    then have "job \<in> set (queue ?s0)" by simp
    then obtain k where "k < length (queue ?s0)" "queue ?s0 ! k = job"
      by (metis in_set_conv_nth)
    then have "\<exists>k. 0 \<le> k \<and> k < length (queue ?s0) \<and> jobCanRun w (heap ?s0 (queue ?s0 ! k))"
      using job(2) by auto
    then show ?thesis using new(3) by blast
  qed
  then have "pass_result w s new (process w s) \<and> \<not> processLock (process w s) \<and>
           (\<not> isPaused s \<and> length (active s) < concurrency s \<and>
            (\<exists>job \<in> set (queue s). jobCanRun w (heap s job)) \<longrightarrow> new \<noteq> [])"
    using p new(2) unfolding eq by blast
  then show ?thesis by (rule exI)
qed

lemma uuid_launched [simp]: "uuid (launched w j) = uuid j"
  by (simp add: launched_def)

lemma count_list_append: "count_list (xs @ ys) x = count_list xs x + count_list ys x"
  by (induction xs) auto

lemma count_list_Executes:
  "distinct new \<Longrightarrow> count_list (map Executes new) (Executes job) = (if job \<in> set new then 1 else 0)"
  by (induction new) auto

lemma well_formed_pass:
  assumes "well_formed s" and "pass_result w s new s'" and "\<not> processLock s'"
  shows "well_formed s'"
proof -
  have h: "heap s' job = (if job \<in> set new then launched w (heap s job) else heap s job)" for job
    using assms(2) by (simp add: pass_result_def)
  have u: "uuid (heap s' job) = uuid (heap s job)" for job
    using h[of job] by simp
  have p: "distinct new" "set new \<subseteq> set (queue s)" "distinct (queue s')"
    "set (queue s') = set (queue s) - set new" "active s' = active s @ new"
    "map fst (pending s') = map fst (pending s) @ new"
    "effects s' = effects s @ map Executes new"
    "callbacks s' = callbacks s" "jobs s' = jobs s" "allocated s' = allocated s"
    using assms(2) by (simp_all add: pass_result_def)
  have w: "jobs s = [0..<allocated s]"
    "\<forall>a < allocated s. \<forall>b < allocated s. uuid (heap s a) = uuid (heap s b) \<longrightarrow> a = b"
    "queued_ok s" "\<forall>job \<in> set (queue s). job < allocated s" "distinct (active s)"
    "\<forall>job \<in> set (active s). job < allocated s" "set (queue s) \<inter> set (active s) = {}"
    "map fst (pending s) = active s"
    "\<forall>job. count_list (effects s) (Executes job) =
               (if job < allocated s \<and> job \<notin> set (queue s) then 1 else 0)"
    using assms(1) by (simp_all add: well_formed_def)
  have 1: "jobs s' = [0..<allocated s']" using p w by simp
  have 2: "\<forall>a < allocated s'. \<forall>b < allocated s'. uuid (heap s' a) = uuid (heap s' b) \<longrightarrow> a = b"
    using w(2) p(10) u by simp
  have 3: "queued_ok s'"
    unfolding queued_ok_def using w(3) p h by (auto simp: queued_ok_def)
  have 4: "\<forall>job \<in> set (queue s'). job < allocated s'" using w(4) p by auto
  have 5: "distinct (active s')" using w(5,7) p by auto
  have 6: "\<forall>job \<in> set (active s'). job < allocated s'" using w(4,6) p by auto
  have 7: "set (queue s') \<inter> set (active s') = {}" using w(7) p by auto
  have 8: "map fst (pending s') = active s'" using w(8) p by simp
  have 9: "\<forall>job. count_list (effects s') (Executes job) =
               (if job < allocated s' \<and> job \<notin> set (queue s') then 1 else 0)"
  proof
    fix job
    have "count_list (effects s') (Executes job) =
          count_list (effects s) (Executes job) + (if job \<in> set new then 1 else 0)"
      using p(1,7) by (simp add: count_list_append count_list_Executes)
    then show "count_list (effects s') (Executes job) =
               (if job < allocated s' \<and> job \<notin> set (queue s') then 1 else 0)"
      using w(9) w(4) p by auto
  qed
  show ?thesis
    unfolding well_formed_def using 1 2 3 4 5 6 7 8 9 assms(3) by blast
qed

lemma well_formed_process:
  assumes "well_formed s"
  shows "well_formed (process w s)"
proof -
  have "queued_ok s" "\<not> processLock s"
    using assms by (simp_all add: well_formed_def)
  from process_pass[OF this, of w]
  obtain new where all: "pass_result w s new (process w s) \<and> \<not> processLock (process w s) \<and>
           (\<not> isPaused s \<and> length (active s) < concurrency s \<and>
            (\<exists>job \<in> set (queue s). jobCanRun w (heap s job)) \<longrightarrow> new \<noteq> [])" ..
  show ?thesis
    using well_formed_pass[OF assms conjunct1[OF all] conjunct1[OF conjunct2[OF all]]] .
qed

lemma uuid_Job_new [simp]: "uuid (Job_new m options u t) = u"
  by (simp add: Job_new_def Let_def split: option.splits)

lemma Job_new_queued [simp]:
  "\<not> hasStarted (Job_new m options u t)" "status (Job_new m options u t) = QUEUED"
  by (simp_all add: Job_new_def Let_def hasStarted_def split: option.splits)

lemma queued_callbacks:
  "callbacks (queued w m options u cb s) = (callbacks s)(u := Some cb)"
  by (simp add: queued_def Let_def)

lemma well_formed_queued:
  assumes "well_formed s" and "\<forall>job < allocated s. uuid (heap s job) \<noteq> u"
  shows "well_formed (queued w m options u cb s)"
proof -
  let ?t = "queued w m options u cb s"
  have w: "jobs s = [0..<allocated s]"
    "\<forall>a < allocated s. \<forall>b < allocated s. uuid (heap s a) = uuid (heap s b) \<longrightarrow> a = b"
    "queued_ok s" "\<forall>job \<in> set (queue s). job < allocated s" "distinct (active s)"
    "\<forall>job \<in> set (active s). job < allocated s" "set (queue s) \<inter> set (active s) = {}"
    "map fst (pending s) = active s" "\<not> processLock s"
    "\<forall>job. count_list (effects s) (Executes job) =
               (if job < allocated s \<and> job \<notin> set (queue s) then 1 else 0)"
    using assms(1) by (simp_all add: well_formed_def)
  have 1: "jobs ?t = [0..<allocated ?t]" using w(1) by simp
  have 2: "\<forall>a < allocated ?t. \<forall>b < allocated ?t. uuid (heap ?t a) = uuid (heap ?t b) \<longrightarrow> a = b"
    using w(2) assms(2) by (auto simp: less_Suc_eq)
  have 3: "queued_ok ?t"
    unfolding queued_ok_def
    using w(3,4) assms(2) by (auto simp: queued_ok_def queued_callbacks)
  have 4: "\<forall>job \<in> set (queue ?t). job < allocated ?t" using w(4) by auto
  have 5: "distinct (active ?t)" using w(5) by simp
  have 6: "\<forall>job \<in> set (active ?t). job < allocated ?t" using w(6) by auto
  have 7: "set (queue ?t) \<inter> set (active ?t) = {}" using w(6,7) by auto
  have 8: "map fst (pending ?t) = active ?t" using w(8) by simp
  have 9: "\<not> processLock ?t" using w(9) by simp
  have 10: "\<forall>job. count_list (effects ?t) (Executes job) =
               (if job < allocated ?t \<and> job \<notin> set (queue ?t) then 1 else 0)"
    using w(10) by (auto simp: less_Suc_eq)
  show ?thesis
    unfolding well_formed_def using 1 2 3 4 5 6 7 8 9 10 by blast
qed

lemma settled_heap:
  "uuid (heap (settled w k ph s) job) = uuid (heap s job)"
  "job \<noteq> fst (pending s ! k) \<Longrightarrow> heap (settled w k ph s) job = heap s job"
  by (simp_all add: settled_def Let_def split: option.splits)

lemma settled_callbacks:
  "callbacks (settled w k ph s) = (callbacks s)(uuid (heap s (fst (pending s ! k))) := None)"
  by (simp add: settled_def Let_def split: option.splits)

lemma settled_count:
  "count_list (effects (settled w k ph s)) (Executes job) = count_list (effects s) (Executes job)"
  by (simp add: settled_effects count_list_append split: option.splits sum.splits)

lemma well_formed_settled:
  assumes "well_formed s" and "k < length (pending s)"
  shows "well_formed (settled w k ph s)"
proof -
  let ?t = "settled w k ph s"
  let ?job = "fst (pending s ! k)"
  have w: "jobs s = [0..<allocated s]"
    "\<forall>a < allocated s. \<forall>b < allocated s. uuid (heap s a) = uuid (heap s b) \<longrightarrow> a = b"
    "queued_ok s" "\<forall>job \<in> set (queue s). job < allocated s" "distinct (active s)"
    "\<forall>job \<in> set (active s). job < allocated s" "set (queue s) \<inter> set (active s) = {}"
    "map fst (pending s) = active s" "\<not> processLock s"
    "\<forall>job. count_list (effects s) (Executes job) =
               (if job < allocated s \<and> job \<notin> set (queue s) then 1 else 0)"
    using assms(1) by (simp_all add: well_formed_def)
  have ka: "k < length (active s)"
    using assms(2) w(8) by (metis length_map)
  have job: "active s ! k = ?job"
    using assms(2) w(8) by (metis nth_map)
  then have ix: "indexOf (active s) ?job = int k"
    using indexOf_nth[OF w(5) ka] by simp
  have act: "active ?t = take k (active s) @ drop (Suc k) (active s)"
    using ix ka by (simp add: settled_active splice1_nat)
  have jin: "?job \<in> set (active s)" "?job < allocated s" "?job \<notin> set (queue s)"
    using job ka w(6,7) nth_mem[OF ka] by auto
  have 1: "jobs ?t = [0..<allocated ?t]" using w(1) by simp
  have 2: "\<forall>a < allocated ?t. \<forall>b < allocated ?t. uuid (heap ?t a) = uuid (heap ?t b) \<longrightarrow> a = b"
    using w(2) by (simp add: settled_heap)
  have 3: "queued_ok ?t"
  proof -
    have "callbacks ?t (uuid (heap ?t j)) \<noteq> None \<and> \<not> hasStarted (heap ?t j) \<and>
          status (heap ?t j) = QUEUED" if "j \<in> set (queue s)" for j
    proof -
      have ne: "j \<noteq> ?job" "j < allocated s" using that jin w(4) by auto
      then have "uuid (heap s j) \<noteq> uuid (heap s ?job)" using w(2) jin(2) by blast
      then show ?thesis
        using w(3) that ne(1) by (simp add: settled_callbacks settled_heap queued_ok_def)
    qed
    then show ?thesis using w(3) by (simp add: queued_ok_def)
  qed
  have 4: "\<forall>job \<in> set (queue ?t). job < allocated ?t" using w(4) by simp
  have 5: "distinct (active ?t)" using act take_drop_distinct(1)[OF w(5) ka] by simp
  have sub: "set (active ?t) \<subseteq> set (active s)"
    using act take_drop_distinct(2)[OF w(5) ka] by auto
  have 6: "\<forall>job \<in> set (active ?t). job < allocated ?t" using w(6) sub by auto
  have 7: "set (queue ?t) \<inter> set (active ?t) = {}" using w(7) sub by auto
  have 8: "map fst (pending ?t) = active ?t"
    using act by (simp add: w(8)[symmetric] take_map drop_map)
  have 9: "\<not> processLock ?t" using w(9) by simp
  have 10: "\<forall>job. count_list (effects ?t) (Executes job) =
               (if job < allocated ?t \<and> job \<notin> set (queue ?t) then 1 else 0)"
    using w(10) by (simp add: settled_count)
  show ?thesis
    unfolding well_formed_def using 1 2 3 4 5 6 7 8 9 10 by blast
qed

lemma well_formed_new: "well_formed JobQueue_new"
  by (simp add: well_formed_def JobQueue_new_def queued_ok_def)

lemma well_formed_event:
  assumes "well_formed s" and "fresh_uuid s e"
  shows "well_formed (apply_event w e s)"
proof (cases e)
  case (QueueJob m options u cb)
  show ?thesis
  proof (cases "registry w m")
    case None
    then show ?thesis using QueueJob assms(1) by (simp add: queueJob_eq)
  next
    case (Some a)
    have "well_formed (queued w m options u cb s)"
      using well_formed_queued[OF assms(1)] assms(2) QueueJob by simp
    then show ?thesis
      using QueueJob Some by (simp add: queueJob_eq well_formed_process)
  qed
next
  case Pause
  then show ?thesis using assms(1) by (simp add: pause_def well_formed_def queued_ok_def)
next
  case Resume
  have "well_formed (s\<lparr>isPaused := False\<rparr>)"
    using assms(1) by (simp add: well_formed_def queued_ok_def)
  then show ?thesis using Resume by (simp add: resume_def well_formed_process)
next
  case (Settle k ph)
  then show ?thesis
    using assms(1) by (simp add: settle_eq well_formed_settled well_formed_process)
qed

lemma reachable_well_formed: "reachable s \<Longrightarrow> well_formed s"
  by (induction rule: reachable.induct) (simp_all add: well_formed_new well_formed_event)

lemma follows_well_formed: "follows s t \<Longrightarrow> well_formed s \<Longrightarrow> well_formed t"
  by (induction rule: follows.induct) (simp_all add: well_formed_event)

section \<open>The registry of jobs\<close>

lemma same_identity_refl [simp]: "same_identity j j"
  by (simp add: same_identity_def)

lemma same_identity_trans: "same_identity a b \<Longrightarrow> same_identity b c \<Longrightarrow> same_identity a c"
  by (simp add: same_identity_def)

lemma same_identity_launched [simp]: "same_identity j (launched w j)"
  by (simp add: same_identity_def launched_def)

lemma process_identity:
  assumes "well_formed s"
  shows "allocated (process w s) = allocated s \<and> same_identity (heap s job) (heap (process w s) job)"
proof -
  have "queued_ok s" "\<not> processLock s"
    using assms by (simp_all add: well_formed_def)
  from process_pass[OF this, of w]
  obtain new where all: "pass_result w s new (process w s) \<and> \<not> processLock (process w s) \<and>
           (\<not> isPaused s \<and> length (active s) < concurrency s \<and>
            (\<exists>job \<in> set (queue s). jobCanRun w (heap s job)) \<longrightarrow> new \<noteq> [])" ..
  then have "pass_result w s new (process w s)" by (rule conjunct1)
  then have "allocated (process w s) = allocated s"
    "heap (process w s) job = (if job \<in> set new then launched w (heap s job) else heap s job)"
    by (simp_all add: pass_result_def)
  then show ?thesis by simp
qed

lemma settled_identity: "same_identity (heap s job) (heap (settled w k ph s) job)"
  by (simp add: settled_def Let_def same_identity_def split: option.splits)

lemma event_identity:
  assumes "well_formed s" and "fresh_uuid s e" and "job < allocated s"
  shows "allocated s \<le> allocated (apply_event w e s) \<and>
         same_identity (heap s job) (heap (apply_event w e s) job)"
proof (cases e)
  case (QueueJob m options u cb)
  show ?thesis
  proof (cases "registry w m")
    case None
    then show ?thesis using QueueJob by (simp add: queueJob_eq)
  next
    case (Some a)
    let ?q = "queued w m options u cb s"
    have "well_formed ?q"
      using well_formed_queued[OF assms(1)] assms(2) QueueJob by simp
    from process_identity[OF this, of w job]
    have "allocated (process w ?q) = Suc (allocated s)"
      "same_identity (heap s job) (heap (process w ?q) job)"
      using assms(3) by simp_all
    then show ?thesis using QueueJob Some by (simp add: queueJob_eq)
  qed
next
  case Pause
  then show ?thesis by (simp add: pause_def)
next
  case Resume
  have "well_formed (s\<lparr>isPaused := False\<rparr>)"
    using assms(1) by (simp add: well_formed_def queued_ok_def)
  from process_identity[OF this, of w job] show ?thesis
    using Resume by (simp add: resume_def)
next
  case (Settle k ph)
  show ?thesis
  proof (cases "k < length (pending s)")
    case False
    then show ?thesis using Settle by (simp add: settle_eq)
  next
    case True
    let ?q = "settled w k ph s"
    have "well_formed ?q" using well_formed_settled[OF assms(1) True] .
    from process_identity[OF this, of w job]
    have "allocated (process w ?q) = allocated s"
      "same_identity (heap ?q job) (heap (process w ?q) job)"
      by simp_all
    then have "allocated (process w ?q) = allocated s"
      "same_identity (heap s job) (heap (process w ?q) job)"
      using same_identity_trans[OF settled_identity[of s job w k ph]] by simp_all
    then show ?thesis
      using Settle True by (simp add: settle_eq)
  qed
qed

lemma follows_identity:
  "follows s t \<Longrightarrow> well_formed s \<Longrightarrow> job < allocated s \<Longrightarrow>
   allocated s \<le> allocated t \<and> same_identity (heap s job) (heap t job)"
proof (induction rule: follows.induct)
  case (follows_refl s)
  then show ?case by simp
next
  case (follows_event s t e w)
  then have ih: "allocated s \<le> allocated t" "same_identity (heap s job) (heap t job)"
    by simp_all
  have "well_formed t"
    using follows_well_formed[OF follows_event.hyps(1) follows_event.prems(1)] .
  moreover have "job < allocated t"
    using ih(1) follows_event.prems(2) by simp
  ultimately have "allocated t \<le> allocated (apply_event w e t)"
    "same_identity (heap t job) (heap (apply_event w e t) job)"
    using event_identity[OF _ follows_event.hyps(2), of job w] by simp_all
  then show ?case
    using ih same_identity_trans[OF ih(2)] by simp
qed

lemma find_unique:
  "x \<in> set xs \<Longrightarrow> P x \<Longrightarrow> (\<forall>y \<in> set xs. P y \<longrightarrow> y = x) \<Longrightarrow> List.find P xs = Some x"
proof (induction xs)
  case Nil
  then show ?case by simp
next
  case (Cons a xs)
  show ?case
  proof (cases "P a")
    case True
    have "a \<in> set (a # xs)" by simp
    then have "a = x" using Cons.prems(3) True by blast
    then show ?thesis using True by simp
  next
    case False
    have "x \<noteq> a" using False Cons.prems(2) by blast
    then have in_xs: "x \<in> set xs" using Cons.prems(1) by simp
    have "\<forall>y \<in> set xs. P y \<longrightarrow> y = x" using Cons.prems(3) by fastforce
    from Cons.IH[OF in_xs Cons.prems(2) this] show ?thesis using False by simp
  qed
qed

lemma getJob_well_formed:
  assumes "well_formed t" and "job < allocated t"
  shows "getJob t (uuid (heap t job)) = Some job"
proof -
  have j: "jobs t = [0..<allocated t]"
    using assms(1) by (simp add: well_formed_def)
  have inj: "\<forall>a < allocated t. \<forall>b < allocated t. uuid (heap t a) = uuid (heap t b) \<longrightarrow> a = b"
    using assms(1) unfolding well_formed_def by (elim conjE)
  have "List.find (\<lambda>y. uuid (heap t y) = uuid (heap t job)) [0..<allocated t] = Some job"
  proof (rule find_unique)
    show "job \<in> set [0..<allocated t]" using assms(2) by simp
    show "uuid (heap t job) = uuid (heap t job)" by (rule refl)
    show "\<forall>y \<in> set [0..<allocated t]. uuid (heap t y) = uuid (heap t job) \<longrightarrow> y = job"
    proof (intro ballI impI)
      fix y
      assume "y \<in> set [0..<allocated t]" and eq: "uuid (heap t y) = uuid (heap t job)"
      then have "y < allocated t" by simp
      then show "y = job" using inj assms(2) eq by blast
    qed
  qed
  then show ?thesis by (simp add: getJob_def j)
qed

text \<open>
  C10. A job that is in \<open>_jobs\<close> in a state the queue has reached is in \<open>_jobs\<close> in
  every later state, whatever is submitted, paused, resumed or completed in between (the
  completion takes it out of \<open>_active\<close> and deletes its callback entry only); its
  identifier does not change, and \<open>getJob\<close> with that identifier returns this very job,
  completed or not.
\<close>

theorem job_stays_registered:
  assumes "reachable s" and "follows s t" and "job \<in> set (jobs s)"
  shows "job \<in> set (jobs t) \<and> uuid (heap t job) = uuid (heap s job) \<and>
         getJob t (uuid (heap s job)) = Some job"
proof -
  have ws: "well_formed s" using assms(1) by (rule reachable_well_formed)
  then have lt: "job < allocated s" using assms(3) by (simp add: well_formed_def)
  have wt: "well_formed t" using follows_well_formed[OF assms(2) ws] .
  have id: "allocated s \<le> allocated t" "same_identity (heap s job) (heap t job)"
    using follows_identity[OF assms(2) ws lt] by simp_all
  then have lt': "job < allocated t" using lt by simp
  have "job \<in> set (jobs t)" using wt lt' by (simp add: well_formed_def)
  moreover have u: "uuid (heap t job) = uuid (heap s job)"
    using id(2) by (simp add: same_identity_def)
  moreover have "getJob t (uuid (heap s job)) = Some job"
    using getJob_well_formed[OF wt lt'] u by simp
  ultimately show ?thesis by simp
qed

theorem job_stays_registered_witness:
  "(let s = apply_event world_started (QueueJob ''data'' None ''a'' 1) JobQueue_new;
        t = apply_event world_started (Settle 0 ph_success) (apply_event world_started Resume s)
    in reachable s \<and> follows s t \<and> 0 \<in> set (jobs s) \<and> 0 \<in> set (jobs t) \<and>
       uuid (heap t 0) = uuid (heap s 0) \<and> getJob t (uuid (heap s 0)) = Some 0 \<and>
       status (heap t 0) = COMPLETED \<and> active t = [] \<and> callbacks t ''a'' = None)"
proof -
  let ?s = "apply_event world_started (QueueJob ''data'' None ''a'' 1) JobQueue_new"
  let ?r = "apply_event world_started Resume ?s"
  let ?t = "apply_event world_started (Settle 0 ph_success) ?r"
  have r: "reachable ?s"
    by (rule reachable_event[OF reachable_new]) (simp add: JobQueue_new_def)
  have f1: "follows ?s ?r"
    by (rule follows_event[OF follows_refl]) simp
  have f: "follows ?s ?t"
    by (rule follows_event[OF f1]) simp
  have j: "0 \<in> set (jobs ?s)"
    by code_simp
  have c: "status (heap ?t 0) = COMPLETED" "active ?t = []" "callbacks ?t ''a'' = None"
    by code_simp+
  show ?thesis
    using job_stays_registered[OF r f j] r f j c by (simp add: Let_def)
qed

section \<open>Jobs of a module that cannot run jobs\<close>

lemma reachable_bounded: "reachable s \<Longrightarrow> bounded s"
proof (induction rule: reachable.induct)
  case reachable_new
  show ?case by (simp add: bounded_def JobQueue_new_def)
next
  case (reachable_event s e w)
  then show ?case using apply_event_bound[of s w e] by (simp add: bounded_def)
qed

lemma process_obtain:
  assumes "well_formed x"
  obtains new where "pass_result w x new (process w x)"
    and "\<not> isPaused x \<and> length (active x) < concurrency x \<and>
            (\<exists>job \<in> set (queue x). jobCanRun w (heap x job)) \<longrightarrow> new \<noteq> []"
proof -
  have "queued_ok x" "\<not> processLock x"
    using assms by (simp_all add: well_formed_def)
  from process_pass[OF this, of w]
  obtain new where all: "pass_result w x new (process w x) \<and> \<not> processLock (process w x) \<and>
           (\<not> isPaused x \<and> length (active x) < concurrency x \<and>
            (\<exists>job \<in> set (queue x). jobCanRun w (heap x job)) \<longrightarrow> new \<noteq> [])" ..
  show ?thesis
    using that[OF conjunct1[OF all] conjunct2[OF conjunct2[OF all]]] .
qed

lemma pass_skips:
  assumes "well_formed x" and "job \<in> set (queue x)" and "\<not> jobCanRun w (heap x job)"
  shows "job \<in> set (queue (process w x)) \<and> heap (process w x) job = heap x job"
proof -
  obtain new where p: "pass_result w x new (process w x)"
    using process_obtain[OF assms(1)] by blast
  then have "job \<notin> set new"
    using assms(3) unfolding pass_result_def by blast
  moreover have "set (queue (process w x)) = set (queue x) - set new"
    "heap (process w x) job = (if job \<in> set new then launched w (heap x job) else heap x job)"
    using p unfolding pass_result_def by blast+
  ultimately show ?thesis using assms(2) by simp
qed

lemma pass_progress:
  assumes "well_formed x" and "job \<in> set (queue x)" and "jobCanRun w (heap x job)"
    and "\<not> isPaused x" and "length (active x) < concurrency x"
  shows "(job \<in> set (active (process w x)) \<and> job \<notin> set (queue (process w x)) \<and>
          status (heap (process w x) job) = ACTIVE) \<or>
         (job \<in> set (queue (process w x)) \<and> heap (process w x) job = heap x job \<and>
          length (queue (process w x)) < length (queue x))"
proof -
  let ?y = "process w x"
  obtain new where p: "pass_result w x new ?y"
    and ne: "\<not> isPaused x \<and> length (active x) < concurrency x \<and>
            (\<exists>job \<in> set (queue x). jobCanRun w (heap x job)) \<longrightarrow> new \<noteq> []"
    using process_obtain[OF assms(1)] by blast
  have new: "new \<noteq> []" using ne assms(2-5) by blast
  have f: "distinct (queue ?y)" "set (queue ?y) = set (queue x) - set new"
    "set new \<subseteq> set (queue x)" "active ?y = active x @ new"
    "heap ?y job = (if job \<in> set new then launched w (heap x job) else heap x job)"
    using p unfolding pass_result_def by blast+
  have dx: "distinct (queue x)" using assms(1) by (simp add: well_formed_def queued_ok_def)
  show ?thesis
  proof (cases "job \<in> set new")
    case True
    then show ?thesis using f by (simp add: launched_def)
  next
    case False
    obtain z where "z \<in> set new" using new by (cases new) auto
    then have "z \<in> set (queue x)" "z \<notin> set (queue ?y)" using f(2,3) by auto
    moreover have "set (queue ?y) \<subseteq> set (queue x)" using f(2) by auto
    ultimately have "set (queue ?y) \<subset> set (queue x)" by auto
    then have "card (set (queue ?y)) < card (set (queue x))"
      by (simp add: psubset_card_mono)
    then have "length (queue ?y) < length (queue x)"
      using distinct_card[OF dx] distinct_card[OF f(1)] by simp
    then show ?thesis using False f assms(2) by simp
  qed
qed

lemma unpaused_well_formed: "well_formed s \<Longrightarrow> well_formed (s\<lparr>isPaused := False\<rparr>)"
  by (simp add: well_formed_def queued_ok_def)

lemma process_full: "concurrency x \<le> length (active x) \<Longrightarrow> process w x = x"
  by (simp add: process_def)

lemma round_progress:
  assumes "well_formed s" and "bounded s" and "job \<in> set (queue s)"
    and "jobCanRun w (heap s job)"
  shows "well_formed (dispatch_round w ph s) \<and> bounded (dispatch_round w ph s) \<and>
         ((job \<in> set (active (dispatch_round w ph s)) \<and>
           job \<notin> set (queue (dispatch_round w ph s)) \<and>
           status (heap (dispatch_round w ph s) job) = ACTIVE) \<or>
          (job \<in> set (queue (dispatch_round w ph s)) \<and>
           heap (dispatch_round w ph s) job = heap s job \<and>
           length (queue (dispatch_round w ph s)) < length (queue s)))"
proof -
  let ?u = "s\<lparr>isPaused := False\<rparr>"
  have wu: "well_formed ?u" using assms(1) by (rule unpaused_well_formed)
  have bu: "length (active ?u) \<le> concurrency ?u" "0 < concurrency ?u"
    using assms(2) by (simp_all add: bounded_def)
  show ?thesis
  proof (cases "concurrency s \<le> length (active s)")
    case False
    then have eq: "dispatch_round w ph s = process w ?u"
      by (simp add: dispatch_round_def resume_def)
    have "well_formed (process w ?u)" using wu by (rule well_formed_process)
    moreover have "bounded (process w ?u)"
      using process_bound[OF bu(1), of w] bu(2) by (simp add: bounded_def)
    moreover have "(job \<in> set (active (process w ?u)) \<and> job \<notin> set (queue (process w ?u)) \<and>
          status (heap (process w ?u) job) = ACTIVE) \<or>
         (job \<in> set (queue (process w ?u)) \<and> heap (process w ?u) job = heap ?u job \<and>
          length (queue (process w ?u)) < length (queue ?u))"
      using pass_progress[OF wu, of job w] assms(3,4) False by simp
    ultimately show ?thesis unfolding eq by simp
  next
    case True
    then have full: "length (active s) = concurrency s"
      using assms(2) by (simp add: bounded_def)
    have r: "resume w s = ?u"
      using True by (simp add: resume_def process_full)
    have pend: "map fst (pending ?u) = active ?u" "distinct (active ?u)"
      "set (queue ?u) \<inter> set (active ?u) = {}"
      using wu by (simp_all add: well_formed_def)
    then have len: "length (pending ?u) = length (active ?u)"
      by (metis length_map)
    then have k: "0 < length (pending ?u)" using full bu(2) by simp
    let ?v = "settled w 0 ph ?u"
    have eq: "dispatch_round w ph s = process w ?v"
      using True k r by (simp add: dispatch_round_def settle_eq)
    have wv: "well_formed ?v" using well_formed_settled[OF wu k] .
    have a0: "active ?u ! 0 = fst (pending ?u ! 0)"
      using k pend(1) by (metis nth_map)
    have ka: "0 < length (active ?u)" using full bu(2) by simp
    have ix: "indexOf (active ?u) (fst (pending ?u ! 0)) = 0"
      using indexOf_nth[OF pend(2) ka] a0 by simp
    then have av: "active ?v = drop 1 (active ?u)"
      using ka by (simp add: settled_active splice1_def)
    then have room: "length (active ?v) < concurrency ?v" "length (active ?v) \<le> concurrency ?v"
      using full bu(2) by simp_all
    have "fst (pending ?u ! 0) \<in> set (active ?u)"
      using a0 nth_mem[OF ka] by simp
    then have "job \<noteq> fst (pending ?u ! 0)"
      using assms(3) pend(3) by auto
    then have hv: "heap ?v job = heap s job"
      using settled_heap(2)[of job ?u 0 w ph] by simp
    have "well_formed (process w ?v)" using wv by (rule well_formed_process)
    moreover have "bounded (process w ?v)"
      using process_bound[OF room(2), of w] bu(2) by (simp add: bounded_def)
    moreover have "(job \<in> set (active (process w ?v)) \<and> job \<notin> set (queue (process w ?v)) \<and>
          status (heap (process w ?v) job) = ACTIVE) \<or>
         (job \<in> set (queue (process w ?v)) \<and> heap (process w ?v) job = heap ?v job \<and>
          length (queue (process w ?v)) < length (queue ?v))"
      using pass_progress[OF wv, of job w] assms(3,4) hv room(1) by simp
    ultimately show ?thesis unfolding eq using hv by simp
  qed
qed

lemma rounds_reach:
  "well_formed s \<Longrightarrow> bounded s \<Longrightarrow> job \<in> set (queue s) \<Longrightarrow> jobCanRun w (heap s job) \<Longrightarrow>
   length (queue s) \<le> n \<Longrightarrow>
   \<exists>m. 0 < m \<and> m \<le> n \<and> well_formed ((dispatch_round w ph ^^ m) s) \<and>
       job \<in> set (active ((dispatch_round w ph ^^ m) s)) \<and>
       job \<notin> set (queue ((dispatch_round w ph ^^ m) s)) \<and>
       status (heap ((dispatch_round w ph ^^ m) s) job) = ACTIVE"
proof (induction n arbitrary: s)
  case 0
  then show ?case by simp
next
  case (Suc n)
  let ?t = "dispatch_round w ph s"
  have t: "well_formed ?t" "bounded ?t"
    "(job \<in> set (active ?t) \<and> job \<notin> set (queue ?t) \<and> status (heap ?t job) = ACTIVE) \<or>
     (job \<in> set (queue ?t) \<and> heap ?t job = heap s job \<and> length (queue ?t) < length (queue s))"
    using round_progress[OF Suc.prems(1-4), of ph] by simp_all
  show ?case
  proof (cases "job \<in> set (queue ?t)")
    case False
    then have "job \<in> set (active ?t) \<and> job \<notin> set (queue ?t) \<and> status (heap ?t job) = ACTIVE"
      using t(3) by blast
    then have "0 < (1::nat) \<and> 1 \<le> Suc n \<and> well_formed ((dispatch_round w ph ^^ 1) s) \<and>
       job \<in> set (active ((dispatch_round w ph ^^ 1) s)) \<and>
       job \<notin> set (queue ((dispatch_round w ph ^^ 1) s)) \<and>
       status (heap ((dispatch_round w ph ^^ 1) s) job) = ACTIVE"
      using t(1) by simp
    then show ?thesis by (rule exI)
  next
    case True
    then have q: "heap ?t job = heap s job" "length (queue ?t) < length (queue s)"
      using t(1,3) by (auto simp: well_formed_def)
    then have "jobCanRun w (heap ?t job)" "length (queue ?t) \<le> n"
      using Suc.prems(4,5) by simp_all
    from Suc.IH[OF t(1,2) True this]
    obtain m where m: "0 < m \<and> m \<le> n \<and> well_formed ((dispatch_round w ph ^^ m) ?t) \<and>
       job \<in> set (active ((dispatch_round w ph ^^ m) ?t)) \<and>
       job \<notin> set (queue ((dispatch_round w ph ^^ m) ?t)) \<and>
       status (heap ((dispatch_round w ph ^^ m) ?t) job) = ACTIVE" ..
    have "(dispatch_round w ph ^^ Suc m) s = (dispatch_round w ph ^^ m) ?t"
      by (simp add: funpow_swap1)
    then have "0 < Suc m \<and> Suc m \<le> Suc n \<and> well_formed ((dispatch_round w ph ^^ Suc m) s) \<and>
       job \<in> set (active ((dispatch_round w ph ^^ Suc m) s)) \<and>
       job \<notin> set (queue ((dispatch_round w ph ^^ Suc m) s)) \<and>
       status (heap ((dispatch_round w ph ^^ Suc m) s) job) = ACTIVE"
      using m by simp
    then show ?thesis by (rule exI)
  qed
qed

lemma process_queue_subset:
  assumes "well_formed x"
  shows "set (queue (process w x)) \<subseteq> set (queue x)"
proof -
  obtain new where p: "pass_result w x new (process w x)"
    using process_obtain[OF assms] by blast
  then have "set (queue (process w x)) = set (queue x) - set new"
    unfolding pass_result_def by blast
  then show ?thesis by auto
qed

lemma event_not_queued:
  assumes "well_formed s" and "fresh_uuid s e" and "job < allocated s"
    and "job \<notin> set (queue s)"
  shows "job \<notin> set (queue (apply_event w e s))"
proof (cases e)
  case (QueueJob m options u cb)
  show ?thesis
  proof (cases "registry w m")
    case None
    then show ?thesis using QueueJob assms(4) by (simp add: queueJob_eq)
  next
    case (Some a)
    let ?q = "queued w m options u cb s"
    have "well_formed ?q"
      using well_formed_queued[OF assms(1)] assms(2) QueueJob by simp
    from process_queue_subset[OF this, of w]
    have "job \<notin> set (queue (process w ?q))"
      using assms(3,4) by auto
    then show ?thesis using QueueJob Some by (simp add: queueJob_eq)
  qed
next
  case Pause
  then show ?thesis using assms(4) by (simp add: pause_def)
next
  case Resume
  from process_queue_subset[OF unpaused_well_formed[OF assms(1)], of w]
  show ?thesis using Resume assms(4) by (auto simp: resume_def)
next
  case (Settle k ph)
  show ?thesis
  proof (cases "k < length (pending s)")
    case False
    then show ?thesis using Settle assms(4) by (simp add: settle_eq)
  next
    case True
    have "well_formed (settled w k ph s)" using well_formed_settled[OF assms(1) True] .
    from process_queue_subset[OF this, of w]
    show ?thesis using Settle True assms(4) by (auto simp: settle_eq)
  qed
qed

lemma follows_not_queued:
  "follows t u \<Longrightarrow> well_formed t \<Longrightarrow> job < allocated t \<Longrightarrow> job \<notin> set (queue t) \<Longrightarrow>
   well_formed u \<and> job < allocated u \<and> job \<notin> set (queue u)"
proof (induction rule: follows.induct)
  case (follows_refl s)
  then show ?case by simp
next
  case (follows_event s t e w)
  then have ih: "well_formed t" "job < allocated t" "job \<notin> set (queue t)"
    by simp_all
  have "well_formed (apply_event w e t)"
    using well_formed_event[OF ih(1) follows_event.hyps(2)] .
  moreover have "job < allocated (apply_event w e t)"
    using event_identity[OF ih(1) follows_event.hyps(2) ih(2), of w] ih(2) by simp
  moreover have "job \<notin> set (queue (apply_event w e t))"
    using event_not_queued[OF ih(1) follows_event.hyps(2) ih(2,3)] .
  ultimately show ?case by simp
qed

lemma event_skips:
  assumes "well_formed s" and "fresh_uuid s e" and "job \<in> set (queue s)"
    and "\<not> jobCanRun w (heap s job)"
  shows "job \<in> set (queue (apply_event w e s)) \<and> heap (apply_event w e s) job = heap s job"
proof (cases e)
  case (QueueJob m options u cb)
  show ?thesis
  proof (cases "registry w m")
    case None
    then show ?thesis using QueueJob assms(3) by (simp add: queueJob_eq)
  next
    case (Some a)
    let ?q = "queued w m options u cb s"
    have wq: "well_formed ?q"
      using well_formed_queued[OF assms(1)] assms(2) QueueJob by simp
    have "job < allocated s" using assms(1,3) by (simp add: well_formed_def)
    then have "heap ?q job = heap s job" "job \<in> set (queue ?q)"
      using assms(3) by simp_all
    then show ?thesis
      using pass_skips[OF wq, of job w] assms(4) QueueJob Some by (simp add: queueJob_eq)
  qed
next
  case Pause
  then show ?thesis using assms(3) by (simp add: pause_def)
next
  case Resume
  from pass_skips[OF unpaused_well_formed[OF assms(1)], of job w]
  show ?thesis using Resume assms(3,4) by (simp add: resume_def)
next
  case (Settle k ph)
  show ?thesis
  proof (cases "k < length (pending s)")
    case False
    then show ?thesis using Settle assms(3) by (simp add: settle_eq)
  next
    case True
    let ?v = "settled w k ph s"
    have wv: "well_formed ?v" using well_formed_settled[OF assms(1) True] .
    have pend: "map fst (pending s) = active s" "set (queue s) \<inter> set (active s) = {}"
      using assms(1) by (simp_all add: well_formed_def)
    have "fst (pending s ! k) \<in> set (map fst (pending s))"
      using True by simp
    then have "job \<noteq> fst (pending s ! k)"
      using assms(3) pend by auto
    then have "heap ?v job = heap s job" by (simp add: settled_heap)
    then show ?thesis
      using pass_skips[OF wv, of job w] assms(3,4) Settle True by (simp add: settle_eq)
  qed
qed

text \<open>
  What does hold of a job that is queued in a state the queue has reached. While its
  module cannot run jobs, whatever happens to the queue (a submission, pause, resume or
  completion, each with its dispatch pass) leaves the job in the queue, unchanged and
  QUEUED, not active and never executed. Once its module can run jobs, there is a way
  to get it dispatched: within as many rounds of \<open>dispatch_round\<close> as there are queued
  jobs, with no submission in between, it is active, and \<open>execute\<close> is called on it
  exactly once in every later state.
\<close>

lemma queued_job_waits_and_runs_once:
  assumes "reachable s" and "job \<in> set (queue s)"
  shows "(\<not> jobCanRun w (heap s job) \<and> fresh_uuid s e \<longrightarrow>
            job \<in> set (queue (apply_event w e s)) \<and>
            job \<notin> set (active (apply_event w e s)) \<and>
            heap (apply_event w e s) job = heap s job \<and> status (heap s job) = QUEUED \<and>
            count_list (effects (apply_event w e s)) (Executes job) = 0) \<and>
         (jobCanRun w (heap s job) \<longrightarrow>
            (\<exists>n. 0 < n \<and> n \<le> length (queue s) \<and>
                 job \<in> set (active ((dispatch_round w ph ^^ n) s)) \<and>
                 job \<notin> set (queue ((dispatch_round w ph ^^ n) s)) \<and>
                 status (heap ((dispatch_round w ph ^^ n) s) job) = ACTIVE \<and>
                 (\<forall>u. follows ((dispatch_round w ph ^^ n) s) u \<longrightarrow>
                      count_list (effects u) (Executes job) = 1)))"
proof (intro conjI impI)
  have ws: "well_formed s" using assms(1) by (rule reachable_well_formed)
  have bs: "bounded s" using assms(1) by (rule reachable_bounded)
  {
    assume a: "\<not> jobCanRun w (heap s job) \<and> fresh_uuid s e"
    let ?t = "apply_event w e s"
    have wt: "well_formed ?t" using well_formed_event[OF ws] a by simp
    have k: "job \<in> set (queue ?t)" "heap ?t job = heap s job"
      using event_skips[OF ws _ assms(2), of e w] a by simp_all
    show "job \<in> set (queue ?t)" by fact
    show "heap ?t job = heap s job" by fact
    show "job \<notin> set (active ?t)"
      using wt k(1) by (auto simp: well_formed_def)
    show "status (heap s job) = QUEUED"
      using ws assms(2) by (simp add: well_formed_def queued_ok_def)
    have "\<forall>j. count_list (effects ?t) (Executes j) =
               (if j < allocated ?t \<and> j \<notin> set (queue ?t) then 1 else 0)"
      using wt unfolding well_formed_def by (elim conjE)
    then show "count_list (effects ?t) (Executes job) = 0"
      using k(1) by simp
  }
  {
    assume c: "jobCanRun w (heap s job)"
    from rounds_reach[OF ws bs assms(2) c le_refl, of ph]
    obtain m where m: "0 < m \<and> m \<le> length (queue s) \<and>
       well_formed ((dispatch_round w ph ^^ m) s) \<and>
       job \<in> set (active ((dispatch_round w ph ^^ m) s)) \<and>
       job \<notin> set (queue ((dispatch_round w ph ^^ m) s)) \<and>
       status (heap ((dispatch_round w ph ^^ m) s) job) = ACTIVE" ..
    let ?t = "(dispatch_round w ph ^^ m) s"
    have wt: "well_formed ?t" and act: "job \<in> set (active ?t)" and nq: "job \<notin> set (queue ?t)"
      using m by simp_all
    have lt: "job < allocated ?t"
      using wt act by (simp add: well_formed_def)
    have "count_list (effects u) (Executes job) = 1" if "follows ?t u" for u
    proof -
      have u: "well_formed u" "job < allocated u" "job \<notin> set (queue u)"
        using follows_not_queued[OF that wt lt nq] by simp_all
      have "\<forall>j. count_list (effects u) (Executes j) =
               (if j < allocated u \<and> j \<notin> set (queue u) then 1 else 0)"
        using u(1) unfolding well_formed_def by (elim conjE)
      then show ?thesis using u(2,3) by simp
    qed
    then have "0 < m \<and> m \<le> length (queue s) \<and>
                 job \<in> set (active ((dispatch_round w ph ^^ m) s)) \<and>
                 job \<notin> set (queue ((dispatch_round w ph ^^ m) s)) \<and>
                 status (heap ((dispatch_round w ph ^^ m) s) job) = ACTIVE \<and>
                 (\<forall>u. follows ((dispatch_round w ph ^^ m) s) u \<longrightarrow>
                      count_list (effects u) (Executes job) = 1)"
      using m by blast
    then show "\<exists>n. 0 < n \<and> n \<le> length (queue s) \<and>
                 job \<in> set (active ((dispatch_round w ph ^^ n) s)) \<and>
                 job \<notin> set (queue ((dispatch_round w ph ^^ n) s)) \<and>
                 status (heap ((dispatch_round w ph ^^ n) s) job) = ACTIVE \<and>
                 (\<forall>u. follows ((dispatch_round w ph ^^ n) s) u \<longrightarrow>
                      count_list (effects u) (Executes job) = 1)"
      by (rule exI)
  }
qed

text \<open>
  C8. After the module's status becomes STARTED, a subsequent dispatch pass moves a unit
  that was waiting for it to the active set. Two jobs of priority 2 are submitted for
  \<open>data\<close> while it is in ERROR, and the queue is resumed: the pass leaves both queued
  and unchanged, as the claim says. Then \<open>data\<close> is STARTED and \<open>resume()\<close> runs a
  dispatch pass: it dispatches the first job and leaves the second queued. Three more
  passes follow, each run by the submission of a job of the default priority 1: each
  dispatches the new job and steps over the waiting one. The second job is still queued
  and has not been executed, although it is eligible and 4 of 50 jobs are active.
\<close>

theorem waiting_job_left_queued_after_start:
  "(let low = Some \<lparr>opt_priority = Some 2, opt_longJob = None\<rparr>;
        s1 = apply_event world_error Resume
               (apply_event world_error (QueueJob ''data'' low ''b'' 2)
                 (apply_event world_error (QueueJob ''data'' low ''a'' 1) JobQueue_new));
        s2 = apply_event world_started Resume s1;
        s3 = apply_event world_started (QueueJob ''data'' None ''e'' 5)
               (apply_event world_started (QueueJob ''data'' None ''d'' 4)
                 (apply_event world_started (QueueJob ''data'' None ''c'' 3) s2))
    in queue s1 = [0, 1] \<and> active s1 = [] \<and> effects s1 = [] \<and>
       status (heap s1 1) = QUEUED \<and> \<not> isPaused s1 \<and>
       queue s2 = [1] \<and> active s2 = [0] \<and> jobCanRun world_started (heap s2 1) \<and>
       queue s3 = [1] \<and> active s3 = [0, 2, 3, 4] \<and>
       effects s3 = [Executes 0, Executes 2, Executes 3, Executes 4] \<and>
       status (heap s3 1) = QUEUED \<and> jobCanRun world_started (heap s3 1) \<and>
       \<not> isPaused s3 \<and> \<not> processLock s3 \<and> length (active s3) < concurrency s3)"
  by code_simp

section \<open>The error of a phase reaches the registered callback\<close>

lemma pending_ok_lock [simp]: "pending_ok (s\<lparr>processLock := b\<rparr>) = pending_ok s"
  by (simp add: pending_ok_def)
















lemma first_error_none: "list_all (\<lambda>r. r = None) rs \<Longrightarrow> first_error rs = None"
  by (induction rs rule: first_error.induct) simp_all






end
